theory Spec2Isabelle
  imports Complex_Main "HOL-Library.Sublist"
begin

section \<open>Numbers and arrays as the notebook's numpy code sees them\<close>

text \<open>
  The region code of \<^verbatim>\<open>dataset_collect.ipynb\<close> works on a two-dimensional numpy
  array, one row \<^verbatim>\<open>[x, y, w, h]\<close> per box (\<^verbatim>\<open>get_image_and_bboxes\<close> builds it with
  \<^verbatim>\<open>np.array([i["bbox"] for i in raw_mask])\<close>). The entries are modelled as real
  numbers: rounding of float64 is idealised away, the special values are not. A numpy
  true division never raises; dividing by zero gives \<^verbatim>\<open>inf\<close>, \<^verbatim>\<open>-inf\<close> or \<^verbatim>\<open>nan\<close>, and
  every ordering comparison with \<^verbatim>\<open>nan\<close> is false. The results of a division are
  therefore values of \<open>npfloat\<close>, compared with the (finite) bounds by \<open>np_less\<close>,
  \<open>np_greater\<close> and \<open>np_ge\<close>.
\<close>

type_synonym bbox = "real \<times> real \<times> real \<times> real"

datatype npfloat = Finite real | PosInf | NegInf | NaN

definition np_truediv :: "real \<Rightarrow> real \<Rightarrow> npfloat" where
  "np_truediv a b =
     (if b \<noteq> 0 then Finite (a / b)
      else if 0 < a then PosInf
      else if a < 0 then NegInf
      else NaN)"

fun np_less :: "npfloat \<Rightarrow> real \<Rightarrow> bool" where
  "np_less (Finite a) c = (a < c)"
| "np_less PosInf c = False"
| "np_less NegInf c = True"
| "np_less NaN c = False"

fun np_greater :: "npfloat \<Rightarrow> real \<Rightarrow> bool" where
  "np_greater (Finite a) c = (c < a)"
| "np_greater PosInf c = True"
| "np_greater NegInf c = False"
| "np_greater NaN c = False"

fun np_ge :: "npfloat \<Rightarrow> real \<Rightarrow> bool" where
  "np_ge (Finite a) c = (c \<le> a)"
| "np_ge PosInf c = True"
| "np_ge NegInf c = False"
| "np_ge NaN c = False"

text \<open>Indexing an array with a boolean mask, \<^verbatim>\<open>arr[mask]\<close>: the rows whose flag is set,
  in their order.\<close>

definition mask_select :: "'a list \<Rightarrow> bool list \<Rightarrow> 'a list" where
  "mask_select arr flags = map fst (filter snd (zip arr flags))"

section \<open>Stage A: the aspect-ratio filter\<close>

text \<open>\<^verbatim>\<open>def bbox_ratio(bbox): _, _, w, h = bbox; return h / w\<close>\<close>

fun bbox_ratio :: "bbox \<Rightarrow> npfloat" where
  "bbox_ratio (_, _, w, h) = np_truediv h w"

text \<open>
  \<^verbatim>\<open>
  def filter_by_constrain(bboxes, constrain=(1.5, 5), metric=bbox_ratio):
      scalars = np.array([metric(i) for i in bboxes])
      mask1 = scalars < constrain[1]
      mask2 = scalars > constrain[0]
      return np.array(bboxes)[mask1 & mask2]
  \<close>
\<close>

definition filter_by_constrain ::
  "'a list \<Rightarrow> real \<times> real \<Rightarrow> ('a \<Rightarrow> npfloat) \<Rightarrow> 'a list" where
  "filter_by_constrain bboxes constrain metric =
     (let scalars = map metric bboxes;
          mask1 = map (\<lambda>s. np_less s (snd constrain)) scalars;
          mask2 = map (\<lambda>s. np_greater s (fst constrain)) scalars
      in mask_select bboxes (map2 (\<and>) mask1 mask2))"

definition default_constrain :: "real \<times> real" where
  "default_constrain = (1.5, 5)"

section \<open>Stage B: containment suppression\<close>

text \<open>The two local helpers of \<^verbatim>\<open>suppress_inside_bboxes\<close>.\<close>

fun bbox_area :: "bbox \<Rightarrow> real" where
  "bbox_area (_, _, w, h) = w * h"

definition intersection_area :: "bbox \<Rightarrow> bbox \<Rightarrow> real" where
  "intersection_area b1 b2 =
     (case (b1, b2) of ((bx1, by1, bw1, bh1), (bx2, by2, bw2, bh2)) \<Rightarrow>
        let x1 = max bx1 bx2; y1 = max by1 by2;
            x2 = min (bx1 + bw1) (bx2 + bw2);
            y2 = min (by1 + bh1) (by2 + bh2)
        in if x2 \<le> x1 \<or> y2 \<le> y1 then 0 else (x2 - x1) * (y2 - y1))"

text \<open>
  The body of the inner loop, for one ordered pair \<open>(i, j)\<close> of indices and the current
  keep flags:
  \<^verbatim>\<open>
  if i == j or not keep[i] or not keep[j]:
      continue
  area_i = bbox_area(bboxes[i]); area_j = bbox_area(bboxes[j])
  inter = intersection_area(bboxes[i], bboxes[j])
  if area_i < area_j:
      if inter / area_i >= threshold: keep[i] = False
  elif area_j < area_i:
      if inter / area_j >= threshold: keep[j] = False
  \<close>
\<close>

definition compare_pair :: "bbox list \<Rightarrow> real \<Rightarrow> nat \<Rightarrow> nat \<Rightarrow> bool list \<Rightarrow> bool list" where
  "compare_pair bboxes threshold i j keep =
     (if i = j \<or> \<not> keep ! i \<or> \<not> keep ! j then keep
      else
        let area_i = bbox_area (bboxes ! i);
            area_j = bbox_area (bboxes ! j);
            inter = intersection_area (bboxes ! i) (bboxes ! j)
        in if area_i < area_j then
             (if np_ge (np_truediv inter area_i) threshold then keep[i := False] else keep)
           else if area_j < area_i then
             (if np_ge (np_truediv inter area_j) threshold then keep[j := False] else keep)
           else keep)"

text \<open>
  The two nested \<^verbatim>\<open>for ... in range(len(bboxes))\<close> loops, started from
  \<^verbatim>\<open>keep = [True] * len(bboxes)\<close>. Every index the body reads is below the length,
  so no read is out of range.
\<close>

definition suppress_keep :: "bbox list \<Rightarrow> real \<Rightarrow> bool list" where
  "suppress_keep bboxes threshold =
     (let n = length bboxes
      in fold (\<lambda>i keep. fold (\<lambda>j keep. compare_pair bboxes threshold i j keep) [0..<n] keep)
           [0..<n] (replicate n True))"

definition suppress_inside_bboxes :: "bbox list \<Rightarrow> real \<Rightarrow> bbox list" where
  "suppress_inside_bboxes bboxes threshold = mask_select bboxes (suppress_keep bboxes threshold)"

definition default_threshold :: real where
  "default_threshold = 0.7"

section \<open>Region proposal, persistence and the per-image pipeline\<close>

text \<open>
  \<^verbatim>\<open>get_image_and_bboxes(image_path, mask_generator)\<close> opens the image, asks the
  segmentation model for its masks and runs both filter stages with their default
  parameters. \<^verbatim>\<open>Image.open\<close> and \<^verbatim>\<open>mask_generator.generate\<close> are external; either may
  raise, which the \<^verbatim>\<open>try\<close> turns into \<^verbatim>\<open>(None, None)\<close>, here \<open>None\<close>. The image type
  is left abstract.
\<close>

definition get_image_and_bboxes ::
  "(string \<Rightarrow> 'img option) \<Rightarrow> string \<Rightarrow> ('img \<Rightarrow> bbox list option) \<Rightarrow> ('img \<times> bbox list) option" where
  "get_image_and_bboxes open_image image_path mask_generator =
     (case open_image image_path of
        None \<Rightarrow> None
      | Some img \<Rightarrow>
          (case mask_generator img of
             None \<Rightarrow> None
           | Some raw_mask \<Rightarrow>
               let bbox = filter_by_constrain raw_mask default_constrain bbox_ratio;
                   bbox = suppress_inside_bboxes bbox default_threshold
               in Some (img, bbox)))"

text \<open>
  What \<^verbatim>\<open>extract_and_save_bboxes\<close> writes: a crop of the parent image at an integer
  box (\<^verbatim>\<open>cv2.imwrite(file_path, image[y:y+h, x:x+w])\<close>) or the CSV sidecar, a header
  and one row per box. The file system is the list of writes, oldest first; creating
  the directories is left out.
\<close>

datatype 'img content =
  Crop 'img int int int int
| CsvFile "string list" "(int \<times> int \<times> int \<times> int \<times> string) list"

type_synonym 'img fs = "(string \<times> 'img content) list"

text \<open>\<^verbatim>\<open>astype(int)\<close> truncates toward zero.\<close>

definition astype_int :: "real \<Rightarrow> int" where
  "astype_int r = (if 0 \<le> r then \<lfloor>r\<rfloor> else \<lceil>r\<rceil>)"

text \<open>Decimal digits of an index, as the f-string prints it.\<close>

fun str_nat :: "nat \<Rightarrow> string" where
  "str_nat n =
     (if n < 10 then [char_of (48 + n)]
      else str_nat (n div 10) @ [char_of (48 + n mod 10)])"

declare str_nat.simps [simp del]

text \<open>\<^verbatim>\<open>os.path.join\<close>, \<^verbatim>\<open>os.path.basename\<close> and the root part of \<^verbatim>\<open>os.path.splitext\<close>,
  for POSIX separators.\<close>

definition path_join :: "string \<Rightarrow> string \<Rightarrow> string" where
  "path_join d name =
     (if d = [] \<or> last d = CHR ''/'' then d @ name else d @ ''/'' @ name)"

definition basename :: "string \<Rightarrow> string" where
  "basename p = rev (takeWhile (\<lambda>c. c \<noteq> CHR ''/'') (rev p))"

definition splitext_root :: "string \<Rightarrow> string" where
  "splitext_root p =
     (case dropWhile (\<lambda>c. c \<noteq> CHR ''.'') (rev p) of
        [] \<Rightarrow> p
      | _ # r \<Rightarrow> if list_all (\<lambda>c. c = CHR ''.'') r then p else rev r)"

text \<open>
  \<^verbatim>\<open>
  base_name = os.path.splitext(os.path.basename(image_path))[0]
  csv_rows = []
  for idx, (x, y, w, h) in enumerate(bboxes.astype(int)):
      cropped = image[y:y+h, x:x+w]
      file_name = f"{base_name}_{idx}.png"
      file_path = os.path.join(bbox_dir, file_name)
      cv2.imwrite(file_path, cropped)
      csv_rows.append([x, y, w, h, file_name])
  csv_file_name = f"{base_name}.csv"
  csv_file_path = os.path.join(csv_dir, csv_file_name)
  with open(csv_file_path, mode='w', newline='') as csv_file:
      writer = csv.writer(csv_file)
      writer.writerow(["X", "Y", "W", "H", "FileName"])
      writer.writerows(csv_rows)
  \<close>
  The loop is a recursion over the rows with the running index, the files and the rows
  collected so far.
\<close>

fun save_crops ::
  "'img \<Rightarrow> string \<Rightarrow> string \<Rightarrow> nat \<Rightarrow> bbox list \<Rightarrow> 'img fs \<Rightarrow>
   (int \<times> int \<times> int \<times> int \<times> string) list \<Rightarrow>
   'img fs \<times> (int \<times> int \<times> int \<times> int \<times> string) list" where
  "save_crops img base_name bbox_dir idx [] files csv_rows = (files, csv_rows)"
| "save_crops img base_name bbox_dir idx (b # rest) files csv_rows =
     (case b of (bx, by, bw, bh) \<Rightarrow>
        let x = astype_int bx; y = astype_int by; w = astype_int bw; h = astype_int bh;
            file_name = base_name @ ''_'' @ str_nat idx @ ''.png'';
            file_path = path_join bbox_dir file_name
        in save_crops img base_name bbox_dir (Suc idx) rest
             (files @ [(file_path, Crop img x y w h)]) (csv_rows @ [(x, y, w, h, file_name)]))"

definition extract_and_save_bboxes ::
  "'img \<Rightarrow> bbox list \<Rightarrow> string \<Rightarrow> string \<Rightarrow> string \<Rightarrow> 'img fs \<Rightarrow> 'img fs" where
  "extract_and_save_bboxes img bboxes bbox_dir csv_dir image_path files =
     (let base_name = splitext_root (basename image_path);
          (files, csv_rows) = save_crops img base_name bbox_dir 0 bboxes files [];
          csv_file_name = base_name @ ''.csv'';
          csv_file_path = path_join csv_dir csv_file_name
      in files @ [(csv_file_path, CsvFile [''X'', ''Y'', ''W'', ''H'', ''FileName''] csv_rows)])"

text \<open>
  \<^verbatim>\<open>
  def image_pipeline(image_path, mask_generator, bboxes_dir, csv_dir):
      image, bbox = get_image_and_bboxes(image_path, mask_generator)
      if image is None or len(bbox) == 0:
          return False
      extract_and_save_bboxes(image, bbox, bboxes_dir, csv_dir, image_path)
      return True
  \<close>
  The result is the returned flag and the file system afterwards.
\<close>

definition image_pipeline ::
  "(string \<Rightarrow> 'img option) \<Rightarrow> string \<Rightarrow> ('img \<Rightarrow> bbox list option) \<Rightarrow> string \<Rightarrow> string \<Rightarrow>
   'img fs \<Rightarrow> bool \<times> 'img fs" where
  "image_pipeline open_image image_path mask_generator bboxes_dir csv_dir files =
     (case get_image_and_bboxes open_image image_path mask_generator of
        None \<Rightarrow> (False, files)
      | Some (img, bbox) \<Rightarrow>
          if length bbox = 0 then (False, files)
          else (True, extract_and_save_bboxes img bbox bboxes_dir csv_dir image_path files))"

section \<open>The deduplicating download\<close>

text \<open>
  Everything \<^verbatim>\<open>download_image\<close> and the generator ask of the outside is a field of
  \<open>world\<close>: \<open>requests_get\<close> is \<^verbatim>\<open>requests.get(url, timeout=10)\<close>, \<open>None\<close> when it
  raises (timeout, connection error, a URL it cannot fetch); \<open>md5_hexdigest\<close> is
  \<^verbatim>\<open>hashlib.md5(b).hexdigest()\<close>; \<open>uuid4_hex n\<close> is the \<open>n\<close>-th token drawn from
  \<^verbatim>\<open>uuid.uuid4().hex\<close>; \<open>write_ok path\<close> says whether opening and writing the file
  succeeds; \<open>find_elements prompt\<close> lists what the successive calls of
  \<^verbatim>\<open>driver.find_elements(By.CSS_SELECTOR, "img")\<close> return for the search page of the
  prompt, the first on load and one more after each scroll.
\<close>

type_synonym bytes = string

datatype response = Response (status_code: int) (content: bytes)

datatype element = Stale | Img "string option"

datatype page = DriverError | Elements "element list"

record world =
  requests_get :: "string \<Rightarrow> response option"
  md5_hexdigest :: "bytes \<Rightarrow> string"
  uuid4_hex :: "nat \<Rightarrow> string"
  write_ok :: "string \<Rightarrow> bool"
  find_elements :: "string \<Rightarrow> page list"

text \<open>The mutable state: the set of fingerprints seen in this session, the files
  written and the number of tokens drawn.\<close>

record store =
  dedup_set :: "string set"
  written :: "(string \<times> bytes) list"
  drawn :: nat

definition compute_md5 :: "world \<Rightarrow> bytes \<Rightarrow> string" where
  "compute_md5 w image_bytes = md5_hexdigest w image_bytes"

text \<open>
  \<^verbatim>\<open>
  try:
      response = requests.get(img_url, timeout=10)
      if response.status_code == 200:
          image_bytes = response.content
          hash_val = compute_md5(image_bytes)
          if hash_val in dedup_set:
              return None
          dedup_set.add(hash_val)
          unique_name = f"{uuid.uuid4().hex}_{hash_val}.png"
          file_path = os.path.join(output_dir, unique_name)
          with open(file_path, "wb") as f:
              f.write(image_bytes)
          return Path(file_path)
  except Exception as e:
      logger.error(...)
  return None
  \<close>
  A failing write raises inside the \<^verbatim>\<open>try\<close>, after \<^verbatim>\<open>dedup_set.add\<close>.
\<close>

definition download_image :: "world \<Rightarrow> string \<Rightarrow> string \<Rightarrow> store \<Rightarrow> string option \<times> store" where
  "download_image w img_url output_dir s =
     (case requests_get w img_url of
        None \<Rightarrow> (None, s)
      | Some response \<Rightarrow>
          if status_code response = 200 then
            let image_bytes = content response;
                hash_val = compute_md5 w image_bytes
            in if hash_val \<in> dedup_set s then (None, s)
               else
                 let s = s\<lparr>dedup_set := insert hash_val (dedup_set s)\<rparr>;
                     unique_name = uuid4_hex w (drawn s) @ ''_'' @ hash_val @ ''.png'';
                     s = s\<lparr>drawn := Suc (drawn s)\<rparr>;
                     file_path = path_join output_dir unique_name
                 in if write_ok w file_path
                    then (Some file_path, s\<lparr>written := written s @ [(file_path, image_bytes)]\<rparr>)
                    else (None, s)
          else (None, s))"

section \<open>The batch generator\<close>

text \<open>
  A run of the generator \<^verbatim>\<open>yandex_images_batch_generator\<close> as its caller sees it. The
  caller's side is the argument \<open>pulls\<close>: \<open>Some p\<close> takes \<open>p\<close> batches with \<^verbatim>\<open>next\<close>
  and then stops (the generator stays suspended at its \<^verbatim>\<open>yield\<close>, or gets
  \<^verbatim>\<open>GeneratorExit\<close> there when it is closed or collected, which \<^verbatim>\<open>except Exception\<close>
  does not catch); \<open>None\<close> iterates until \<^verbatim>\<open>StopIteration\<close>. The result lists the
  batches handed out, how the run ended, whether the browser was started and whether
  \<^verbatim>\<open>driver.quit()\<close> was reached, and the store at that moment.
\<close>

datatype ending = NotStarted | Suspended | Raised | Returned

record run =
  yielded :: "string list list"
  ending :: ending
  driver_started :: bool
  driver_quit :: bool
  final :: store

definition startswith :: "string \<Rightarrow> string \<Rightarrow> bool" where
  "startswith s pre = (take (length pre) s = pre)"

text \<open>
  The head of the \<^verbatim>\<open>while True\<close> body:
  \<^verbatim>\<open>
  if idx >= len(images):
      driver.execute_script("window.scrollTo(0, document.body.scrollHeight);")
      time.sleep(2)
      images = driver.find_elements(By.CSS_SELECTOR, "img")
      if idx >= len(images):
          break
  \<close>
  When no further result is listed the page no longer changes and \<^verbatim>\<open>find_elements\<close>
  returns the same elements. A driver call that raises here is outside the \<^verbatim>\<open>try\<close>.
\<close>

datatype refreshed = Break | Crash | Go "element list" "page list"

definition refresh :: "element list \<Rightarrow> page list \<Rightarrow> nat \<Rightarrow> refreshed" where
  "refresh images pending idx =
     (if idx \<ge> length images then
        (case pending of
           [] \<Rightarrow> Break
         | DriverError # _ \<Rightarrow> Crash
         | Elements images' # pending' \<Rightarrow>
             if idx \<ge> length images' then Break else Go images' pending')
      else Go images pending)"

text \<open>
  After the loop:
  \<^verbatim>\<open>
  if batch:
      yield batch
  driver.quit()
  \<close>
\<close>

definition flush :: "nat option \<Rightarrow> string list \<Rightarrow> store \<Rightarrow> string list list \<Rightarrow> run" where
  "flush pulls batch s out =
     (if batch \<noteq> [] then
        let out = out @ [batch]
        in if pulls = Some (length out)
           then \<lparr>yielded = out, ending = Suspended, driver_started = True,
                 driver_quit = False, final = s\<rparr>
           else \<lparr>yielded = out, ending = Returned, driver_started = True,
                 driver_quit = True, final = s\<rparr>
      else \<lparr>yielded = out, ending = Returned, driver_started = True,
            driver_quit = True, final = s\<rparr>)"

text \<open>
  The loop itself, with the batches handed out so far in \<open>out\<close>:
  \<^verbatim>\<open>
  while True:
      <scroll if necessary, see refresh>
      try:
          image_element = images[idx]
          img_url = image_element.get_attribute("src")
          if not img_url or img_url.startswith("data:"):
              idx += 1
              continue
          file_path = download_image(img_url, output_dir, dedup_set)
          if file_path:
              batch.append(file_path)
          if len(batch) == batch_size:
              yield batch
              batch = []
          idx += 1
      except Exception as e:
          logger.error(...)
          idx += 1
  if batch:
      yield batch
  driver.quit()
  \<close>
  \<^verbatim>\<open>images[idx]\<close> is in range after the head of the body. \<open>Stale\<close> is an element
  whose \<^verbatim>\<open>get_attribute\<close> raises; \<^verbatim>\<open>download_image\<close> catches its own exceptions.
  Every turn either moves \<open>idx\<close> toward the end of the current list or consumes one
  listed scroll result, so the recursion terminates.
\<close>

function harvest_loop ::
  "world \<Rightarrow> string \<Rightarrow> int \<Rightarrow> nat option \<Rightarrow> element list \<Rightarrow> page list \<Rightarrow> nat \<Rightarrow>
   string list \<Rightarrow> store \<Rightarrow> string list list \<Rightarrow> run" where
  "harvest_loop w output_dir batch_size pulls images pending idx batch s out =
     (case refresh images pending idx of
        Break \<Rightarrow> flush pulls batch s out
      | Crash \<Rightarrow> \<lparr>yielded = out, ending = Raised, driver_started = True,
                    driver_quit = False, final = s\<rparr>
      | Go images pending \<Rightarrow>
          (case images ! idx of
             Stale \<Rightarrow>
               harvest_loop w output_dir batch_size pulls images pending (Suc idx) batch s out
           | Img src \<Rightarrow>
               (case src of
                  None \<Rightarrow>
                    harvest_loop w output_dir batch_size pulls images pending (Suc idx) batch s out
                | Some img_url \<Rightarrow>
                    if img_url = [] \<or> startswith img_url ''data:'' then
                      harvest_loop w output_dir batch_size pulls images pending (Suc idx) batch s out
                    else
                      (case download_image w img_url output_dir s of
                         (file_path, s) \<Rightarrow>
                           let batch = (case file_path of
                                          Some p \<Rightarrow> batch @ [p]
                                        | None \<Rightarrow> batch)
                           in if int (length batch) = batch_size then
                                let out = out @ [batch]
                                in if pulls = Some (length out)
                                   then \<lparr>yielded = out, ending = Suspended,
                                         driver_started = True, driver_quit = False,
                                         final = s\<rparr>
                                   else harvest_loop w output_dir batch_size pulls images
                                          pending (Suc idx) [] s out
                              else harvest_loop w output_dir batch_size pulls images
                                     pending (Suc idx) batch s out))))"
  by pat_completeness auto
termination
  apply (relation "inv_image (less_than <*lex*> less_than)
     (\<lambda>(w, output_dir, batch_size, pulls, images, pending, idx, batch, s, out).
        (length pending, length images - idx))")
   apply (auto simp: refresh_def split: if_splits list.splits page.splits)
  done

declare harvest_loop.simps [simp del]

text \<open>
  The generator: a fresh fingerprint set, the browser opened on the search page, the
  first \<^verbatim>\<open>find_elements\<close>, then the loop. A generator body does not run before the
  first \<^verbatim>\<open>next\<close>, so a caller that never pulls starts nothing.
\<close>

definition yandex_images_batch_generator ::
  "world \<Rightarrow> string \<Rightarrow> string \<Rightarrow> int \<Rightarrow> nat option \<Rightarrow> run" where
  "yandex_images_batch_generator w prompt output_dir batch_size pulls =
     (let s = \<lparr>dedup_set = {}, written = [], drawn = 0\<rparr>
      in if pulls = Some 0
         then \<lparr>yielded = [], ending = NotStarted, driver_started = False,
               driver_quit = False, final = s\<rparr>
         else
           (case find_elements w prompt of
              [] \<Rightarrow> harvest_loop w output_dir batch_size pulls [] [] 0 [] s []
            | DriverError # _ \<Rightarrow>
                \<lparr>yielded = [], ending = Raised, driver_started = True,
                 driver_quit = False, final = s\<rparr>
            | Elements images # pending \<Rightarrow>
                harvest_loop w output_dir batch_size pulls images pending 0 [] s []))"

section \<open>Reference functions for the batch claim\<close>

text \<open>
  The functions of this section are not code of the notebook. They say what the
  generator is compared with: the elements its loop visits, in order of discovery
  (\<open>crawl\<close>, and \<open>candidates\<close> from the first page on); the paths the downloads
  of those elements return (\<open>harvested\<close>); and the cutting of a list into
  consecutive pieces of \<open>k\<close> elements, the last one possibly shorter (\<open>chunks\<close>).
\<close>

function crawl :: "element list \<Rightarrow> page list \<Rightarrow> nat \<Rightarrow> element list" where
  "crawl images pending idx =
     (case refresh images pending idx of
        Break \<Rightarrow> []
      | Crash \<Rightarrow> []
      | Go images pending \<Rightarrow> images ! idx # crawl images pending (Suc idx))"
  by pat_completeness auto
termination
  apply (relation "inv_image (less_than <*lex*> less_than)
     (\<lambda>(images, pending, idx). (length pending, length images - idx))")
   apply (auto simp: refresh_def split: if_splits list.splits page.splits)
  done

declare crawl.simps [simp del]

definition candidates :: "world \<Rightarrow> string \<Rightarrow> element list" where
  "candidates w prompt =
     (case find_elements w prompt of
        [] \<Rightarrow> []
      | DriverError # _ \<Rightarrow> []
      | Elements images # pending \<Rightarrow> crawl images pending 0)"

fun harvested :: "world \<Rightarrow> string \<Rightarrow> element list \<Rightarrow> store \<Rightarrow> string list" where
  "harvested w output_dir [] s = []"
| "harvested w output_dir (e # es) s =
     (case e of
        Stale \<Rightarrow> harvested w output_dir es s
      | Img None \<Rightarrow> harvested w output_dir es s
      | Img (Some img_url) \<Rightarrow>
          if img_url = [] \<or> startswith img_url ''data:'' then harvested w output_dir es s
          else (case download_image w img_url output_dir s of
                  (None, s') \<Rightarrow> harvested w output_dir es s'
                | (Some p, s') \<Rightarrow> p # harvested w output_dir es s'))"

function chunks :: "nat \<Rightarrow> 'a list \<Rightarrow> 'a list list" where
  "chunks k xs =
     (if xs = [] then []
      else if k = 0 then [xs]
      else take k xs # chunks k (drop k xs))"
  by pat_completeness auto
termination
  by (relation "measure (\<lambda>(k, xs). length xs)") auto

declare chunks.simps [simp del]


text \<open>
  Four more notions for the statements about downloads: the fingerprint under which
  the content behind a URL is deduplicated; the paths under which a list of URLs is
  saved when every download succeeds, the \<open>n\<close>-th token being the first one drawn;
  a session that fetches a list of URLs one after the other with the same store; and
  the number of files with a given content.
\<close>

definition fingerprint :: "world \<Rightarrow> string \<Rightarrow> string" where
  "fingerprint w img_url =
     (case requests_get w img_url of
        None \<Rightarrow> []
      | Some response \<Rightarrow> compute_md5 w (content response))"

fun expected_paths :: "world \<Rightarrow> string \<Rightarrow> nat \<Rightarrow> string list \<Rightarrow> string list" where
  "expected_paths w output_dir n [] = []"
| "expected_paths w output_dir n (img_url # rest) =
     path_join output_dir (uuid4_hex w n @ ''_'' @ fingerprint w img_url @ ''.png'')
       # expected_paths w output_dir (Suc n) rest"

fun download_all :: "world \<Rightarrow> string \<Rightarrow> string list \<Rightarrow> store \<Rightarrow> string option list \<times> store" where
  "download_all w output_dir [] s = ([], s)"
| "download_all w output_dir (img_url # rest) s =
     (case download_image w img_url output_dir s of
        (file_path, s) \<Rightarrow>
          (case download_all w output_dir rest s of
             (results, s) \<Rightarrow> (file_path # results, s)))"

definition copies :: "bytes \<Rightarrow> (string \<times> bytes) list \<Rightarrow> nat" where
  "copies body files = length (filter (\<lambda>f. snd f = body) files)"

section \<open>Example inputs\<close>

text \<open>
  A search page that shows three images on load and two more after one scroll; every
  URL answers with status 200 and its own bytes, every write succeeds.
\<close>

definition demo_world :: world where
  "demo_world =
     \<lparr>requests_get = (\<lambda>u. Some (Response 200 (''bytes of '' @ u))),
      md5_hexdigest = (\<lambda>b. drop 9 b),
      uuid4_hex = str_nat,
      write_ok = (\<lambda>p. True),
      find_elements = (\<lambda>prompt.
        [Elements [Img (Some ''u1''), Img (Some ''u2''), Img (Some ''u3'')],
         Elements [Img (Some ''u1''), Img (Some ''u2''), Img (Some ''u3''),
                   Img (Some ''u4''), Img (Some ''u5'')]])\<rparr>"

text \<open>The same, except that the driver raises when the page is scrolled.\<close>

definition crashing_world :: world where
  "crashing_world =
     demo_world\<lparr>find_elements := (\<lambda>prompt.
       [Elements [Img (Some ''u1''), Img (Some ''u2''), Img (Some ''u3'')], DriverError])\<rparr>"

text \<open>A network on which every URL but one answers with the same bytes, with a disk
  that takes every write, and the same network with a disk that takes none.\<close>

definition same_bytes_world :: world where
  "same_bytes_world =
     \<lparr>requests_get = (\<lambda>u. if u = ''gone'' then None else Some (Response 200 ''PNG'')),
      md5_hexdigest = (\<lambda>b. ''h'' @ b),
      uuid4_hex = str_nat,
      write_ok = (\<lambda>p. True),
      find_elements = (\<lambda>prompt. [])\<rparr>"

definition read_only_world :: world where
  "read_only_world = same_bytes_world\<lparr>write_ok := (\<lambda>p. False)\<rparr>"

section \<open>Notions used in the statements and proofs\<close>

text \<open>
  \<open>dominated a b t\<close>: \<open>a\<close> is the strictly smaller box of the two and the share of its
  area that lies inside \<open>b\<close>, computed as the pass computes it, reaches the threshold.
\<close>

definition dominated :: "bbox \<Rightarrow> bbox \<Rightarrow> real \<Rightarrow> bool" where
  "dominated a b t =
     (bbox_area a < bbox_area b \<and>
      np_ge (np_truediv (intersection_area a b) (bbox_area a)) t)"

text \<open>Keep flags only ever go from true to false: \<open>le_keep keep' keep\<close> says that
  \<open>keep'\<close> has the length of \<open>keep\<close> and sets no flag that \<open>keep\<close> has cleared.\<close>

definition le_keep :: "bool list \<Rightarrow> bool list \<Rightarrow> bool" where
  "le_keep keep' keep =
     (length keep' = length keep \<and> (\<forall>m < length keep. keep' ! m \<longrightarrow> keep ! m))"

text \<open>The loop invariant for one pair: if both are kept, neither dominates the other.\<close>

definition pair_ok :: "bbox list \<Rightarrow> real \<Rightarrow> bool list \<Rightarrow> nat \<Rightarrow> nat \<Rightarrow> bool" where
  "pair_ok bboxes t keep i j =
     (keep ! i \<and> keep ! j \<and> i \<noteq> j \<longrightarrow>
        \<not> dominated (bboxes ! i) (bboxes ! j) t \<and> \<not> dominated (bboxes ! j) (bboxes ! i) t)"

text \<open>The loop invariant for the cleared flags: a flag is cleared only for a box that
  some box of the input dominates.\<close>

definition cleared_ok :: "bbox list \<Rightarrow> real \<Rightarrow> bool list \<Rightarrow> bool" where
  "cleared_ok bboxes t keep =
     (\<forall>i < length keep. \<not> keep ! i \<longrightarrow> (\<exists>j < length bboxes. dominated (bboxes ! i) (bboxes ! j) t))"

section \<open>Boolean masks and the aspect-ratio filter\<close>

lemma mask_select_Nil [simp]: "mask_select [] m = []" "mask_select xs [] = []"
  by (simp_all add: mask_select_def)

lemma mask_select_Cons [simp]:
  "mask_select (x # xs) (b # bs) = (if b then x # mask_select xs bs else mask_select xs bs)"
  by (simp add: mask_select_def)

lemma mask_select_subseq: "subseq (mask_select xs m) xs"
proof (induction xs arbitrary: m)
  case Nil
  show ?case by simp
next
  case (Cons x xs)
  show ?case
  proof (cases m)
    case Nil
    then show ?thesis by simp
  next
    case (Cons b bs)
    with Cons.IH [of bs] show ?thesis by auto
  qed
qed

lemma mask_select_map: "mask_select xs (map P xs) = filter P xs"
  by (induction xs) simp_all

text \<open>The two masks and their conjunction amount to one filter with the conjoined test.\<close>

lemma filter_by_constrain_filter:
  "filter_by_constrain bboxes constrain metric =
     filter (\<lambda>b. np_less (metric b) (snd constrain) \<and> np_greater (metric b) (fst constrain)) bboxes"
proof -
  have "map2 (\<and>) (map (\<lambda>s. np_less s (snd constrain)) (map metric bboxes))
                  (map (\<lambda>s. np_greater s (fst constrain)) (map metric bboxes))
        = map (\<lambda>b. np_less (metric b) (snd constrain) \<and> np_greater (metric b) (fst constrain)) bboxes"
    by (induction bboxes) simp_all
  then show ?thesis
    by (simp add: filter_by_constrain_def Let_def mask_select_map)
qed

text \<open>
  Claim C2. The boxes that survive the aspect-ratio filter are exactly the boxes of the
  input whose ratio \<open>h / w\<close> lies strictly between the two bounds, each box judged on
  its own, in the input's order and multiplicity. A box of width zero has the ratio
  \<^verbatim>\<open>inf\<close>, \<^verbatim>\<open>-inf\<close> or \<^verbatim>\<open>nan\<close> and is never between two finite bounds. For boxes
  with the ratios 1, 2, 4.9, 5 and 6 and the default bounds \<open>(1.5, 5)\<close> the second and
  the third survive and no other.
\<close>

theorem aspect_filter_correct:
  "filter_by_constrain bboxes (low, high) bbox_ratio =
       filter (\<lambda>(x, y, w, h). w \<noteq> 0 \<and> low < h / w \<and> h / w < high) bboxes
   \<and> set (filter_by_constrain bboxes (low, high) bbox_ratio) =
       {(x, y, w, h). (x, y, w, h) \<in> set bboxes \<and> w \<noteq> 0 \<and> low < h / w \<and> h / w < high}
   \<and> (map bbox_ratio bboxes = [Finite 1, Finite 2, Finite 4.9, Finite 5, Finite 6] \<longrightarrow>
        filter_by_constrain bboxes default_constrain bbox_ratio = [bboxes ! 1, bboxes ! 2])"
proof -
  have eq: "filter_by_constrain bboxes (low, high) bbox_ratio =
       filter (\<lambda>(x, y, w, h). w \<noteq> 0 \<and> low < h / w \<and> h / w < high) bboxes"
    unfolding filter_by_constrain_filter
    by (rule filter_cong) (auto simp: np_truediv_def split: if_splits)
  have st: "set (filter_by_constrain bboxes (low, high) bbox_ratio) =
       {(x, y, w, h). (x, y, w, h) \<in> set bboxes \<and> w \<noteq> 0 \<and> low < h / w \<and> h / w < high}"
    unfolding eq by auto
  have ex: "filter_by_constrain bboxes default_constrain bbox_ratio = [bboxes ! 1, bboxes ! 2]"
    if r: "map bbox_ratio bboxes = [Finite 1, Finite 2, Finite 4.9, Finite 5, Finite 6]"
  proof -
    from r obtain b0 b1 b2 b3 b4 where bs: "bboxes = [b0, b1, b2, b3, b4]"
      by (auto simp: map_eq_Cons_conv)
    from r show ?thesis
      unfolding filter_by_constrain_filter bs default_constrain_def by simp
  qed
  from eq st ex show ?thesis by blast
qed

theorem aspect_filter_correct_witness:
  "map bbox_ratio [(0, 0, 10, 10), (0, 0, 10, 20), (0, 0, 10, 49), (0, 0, 10, 50), (0, 0, 10, 60)]
     = [Finite 1, Finite 2, Finite 4.9, Finite 5, Finite 6]
   \<and> filter_by_constrain
        [(0, 0, 10, 10), (0, 0, 10, 20), (0, 0, 10, 49), (0, 0, 10, 50), (0, 0, 10, 60)]
        default_constrain bbox_ratio
     = [(0, 0, 10, 20), (0, 0, 10, 49)]"
proof -
  have r: "map bbox_ratio
             [(0, 0, 10, 10), (0, 0, 10, 20), (0, 0, 10, 49), (0, 0, 10, 50), (0, 0, 10, 60)]
           = [Finite 1, Finite 2, Finite 4.9, Finite 5, Finite 6]"
    by (simp add: np_truediv_def)
  from aspect_filter_correct
         [of "[(0, 0, 10, 10), (0, 0, 10, 20), (0, 0, 10, 49), (0, 0, 10, 50), (0, 0, 10, 60)]"
             "1.5" 5] r
  show ?thesis by simp
qed

section \<open>Containment suppression: the intersection and the order of the visits\<close>

lemma fold_product:
  "fold (\<lambda>(i, j). f i j) (List.product xs ys) = fold (\<lambda>i. fold (f i) ys) xs"
  by (induction xs) (simp_all add: fold_map comp_def)

lemma no_overlap_zero:
  assumes "{x1 <..< x1 + w1} \<inter> {x2 <..< x2 + w2} = {} \<or> {y1 <..< y1 + h1} \<inter> {y2 <..< y2 + h2} = {}"
  shows "intersection_area (x1, y1, w1, h1) (x2, y2, w2, h2) = (0::real)"
proof -
  have mid: "{a <..< b} \<inter> {c <..< d} \<noteq> {}" if "max a c < min b d" for a b c d :: real
  proof -
    have "(max a c + min b d) / 2 \<in> {a <..< b} \<inter> {c <..< d}"
      using that by (auto simp: max_def min_def split: if_splits)
    then show ?thesis by blast
  qed
  from assms mid [of x1 x2 "x1 + w1" "x2 + w2"] mid [of y1 y2 "y1 + h1" "y2 + h2"]
  have "min (x1 + w1) (x2 + w2) \<le> max x1 x2 \<or> min (y1 + h1) (y2 + h2) \<le> max y1 y2"
    by (meson not_le)
  then show ?thesis
    by (auto simp: intersection_area_def Let_def)
qed

section \<open>Containment suppression: what holds of the survivors\<close>

lemma intersection_area_commute: "intersection_area a b = intersection_area b a"
  by (cases a; cases b) (simp add: intersection_area_def Let_def max.commute min.commute)

lemma compare_pair_dominated:
  "compare_pair bboxes t i j keep =
     (if i = j \<or> \<not> keep ! i \<or> \<not> keep ! j then keep
      else if dominated (bboxes ! i) (bboxes ! j) t then keep[i := False]
      else if dominated (bboxes ! j) (bboxes ! i) t then keep[j := False]
      else keep)"
  by (auto simp: compare_pair_def dominated_def Let_def intersection_area_commute [of "bboxes ! j"])

lemma le_keep_refl: "le_keep keep keep"
  by (simp add: le_keep_def)

lemma le_keep_trans: "le_keep a b \<Longrightarrow> le_keep b c \<Longrightarrow> le_keep a c"
  by (auto simp: le_keep_def)

lemma le_keep_update: "le_keep (keep[i := False]) keep"
  by (cases "i < length keep") (auto simp: le_keep_def nth_list_update)

lemma compare_pair_le: "le_keep (compare_pair bboxes t i j keep) keep"
  by (simp add: compare_pair_dominated le_keep_refl le_keep_update)

lemma pair_ok_antimono:
  "le_keep keep' keep \<Longrightarrow> i < length keep \<Longrightarrow> j < length keep \<Longrightarrow>
     pair_ok bboxes t keep i j \<Longrightarrow> pair_ok bboxes t keep' i j"
  by (auto simp: le_keep_def pair_ok_def)

lemma compare_pair_ok:
  "i < length keep \<Longrightarrow> j < length keep \<Longrightarrow> pair_ok bboxes t (compare_pair bboxes t i j keep) i j"
  by (auto simp: compare_pair_dominated pair_ok_def)

lemma inner_le: "le_keep (fold (compare_pair bboxes t i) js keep) keep"
proof (induction js arbitrary: keep)
  case Nil
  show ?case by (simp add: le_keep_refl)
next
  case (Cons j js)
  from Cons.IH [of "compare_pair bboxes t i j keep"] compare_pair_le [of bboxes t i j keep]
  show ?case by (auto intro: le_keep_trans)
qed

lemma inner_ok:
  "i < length keep \<Longrightarrow> \<forall>j \<in> set js. j < length keep \<Longrightarrow> j \<in> set js \<Longrightarrow>
     pair_ok bboxes t (fold (compare_pair bboxes t i) js keep) i j"
proof (induction js arbitrary: keep)
  case Nil
  then show ?case by simp
next
  case (Cons a js)
  let ?k = "compare_pair bboxes t i a keep"
  have len: "length ?k = length keep"
    using compare_pair_le [of bboxes t i a keep] by (simp add: le_keep_def)
  show ?case
  proof (cases "j = a")
    case True
    have "pair_ok bboxes t ?k i a"
      using Cons.prems by (intro compare_pair_ok) auto
    moreover have "le_keep (fold (compare_pair bboxes t i) js ?k) ?k"
      by (rule inner_le)
    ultimately show ?thesis
      using Cons.prems len True by (auto intro: pair_ok_antimono)
  next
    case False
    with Cons.prems have "j \<in> set js" by simp
    with Cons.IH [of ?k] Cons.prems len show ?thesis by simp
  qed
qed

lemma outer_le:
  "le_keep (fold (\<lambda>i keep. fold (compare_pair bboxes t i) js keep) is keep) keep"
proof (induction "is" arbitrary: keep)
  case Nil
  show ?case by (simp add: le_keep_refl)
next
  case (Cons i "is")
  from Cons.IH [of "fold (compare_pair bboxes t i) js keep"] inner_le [of bboxes t i js keep]
  show ?case by (auto intro: le_keep_trans)
qed

lemma outer_ok:
  "\<forall>i \<in> set is. i < length keep \<Longrightarrow> \<forall>j \<in> set js. j < length keep \<Longrightarrow>
   i \<in> set is \<Longrightarrow> j \<in> set js \<Longrightarrow>
     pair_ok bboxes t (fold (\<lambda>i keep. fold (compare_pair bboxes t i) js keep) is keep) i j"
proof (induction "is" arbitrary: keep)
  case Nil
  then show ?case by simp
next
  case (Cons a "is")
  let ?k = "fold (compare_pair bboxes t a) js keep"
  have len: "length ?k = length keep"
    using inner_le [of bboxes t a js keep] by (simp add: le_keep_def)
  show ?case
  proof (cases "i = a")
    case True
    have "pair_ok bboxes t ?k a j"
      using Cons.prems by (intro inner_ok) auto
    moreover have "le_keep (fold (\<lambda>i keep. fold (compare_pair bboxes t i) js keep) is ?k) ?k"
      by (rule outer_le)
    ultimately show ?thesis
      using Cons.prems len True by (auto intro: pair_ok_antimono)
  next
    case False
    with Cons.prems have "i \<in> set is" by simp
    with Cons.IH [of ?k] Cons.prems len show ?thesis by simp
  qed
qed

lemma suppress_keep_length: "length (suppress_keep bboxes t) = length bboxes"
  using outer_le [of bboxes t "[0..<length bboxes]" "[0..<length bboxes]" "replicate (length bboxes) True"]
  by (simp add: suppress_keep_def le_keep_def Let_def)

lemma suppress_keep_ok:
  "i < length bboxes \<Longrightarrow> j < length bboxes \<Longrightarrow> pair_ok bboxes t (suppress_keep bboxes t) i j"
  unfolding suppress_keep_def Let_def
  by (rule outer_ok) simp_all

lemma in_mask_selectD:
  assumes "length m = length xs" and "a \<in> set (mask_select xs m)"
  shows "\<exists>i < length xs. xs ! i = a \<and> m ! i"
proof -
  from assms(2) obtain p where "p \<in> set (zip xs m)" "snd p" "a = fst p"
    by (auto simp: mask_select_def)
  then show ?thesis
    by (auto simp: in_set_zip)
qed

lemma in_mask_selectI:
  assumes "length m = length xs" and "i < length xs" and "m ! i"
  shows "xs ! i \<in> set (mask_select xs m)"
proof -
  from assms have "(xs ! i, True) \<in> set (zip xs m)"
    by (auto simp: in_set_zip)
  then show ?thesis
    by (force simp: mask_select_def)
qed

text \<open>
  Claim C3. In the output of the suppression pass there are no two boxes of different
  area such that the intersection divided by the area of the smaller one reaches the
  threshold. The comparison is the one the pass makes; for a smaller box of positive
  area it says that the real quotient is below the threshold.
\<close>

theorem suppress_postcondition:
  assumes "a \<in> set (suppress_inside_bboxes bboxes t)"
      and "b \<in> set (suppress_inside_bboxes bboxes t)"
      and "bbox_area a < bbox_area b"
    shows "\<not> np_ge (np_truediv (intersection_area a b) (bbox_area a)) t
           \<and> (0 < bbox_area a \<longrightarrow> intersection_area a b / bbox_area a < t)"
proof -
  from assms(1) obtain i where i: "i < length bboxes" "bboxes ! i = a" "suppress_keep bboxes t ! i"
    using in_mask_selectD [OF suppress_keep_length, of a bboxes t]
    by (auto simp: suppress_inside_bboxes_def)
  from assms(2) obtain j where j: "j < length bboxes" "bboxes ! j = b" "suppress_keep bboxes t ! j"
    using in_mask_selectD [OF suppress_keep_length, of b bboxes t]
    by (auto simp: suppress_inside_bboxes_def)
  from assms(3) i j have "i \<noteq> j" by auto
  with suppress_keep_ok [OF i(1) j(1), of t] i j have "\<not> dominated a b t"
    by (simp add: pair_ok_def)
  with assms(3) have n: "\<not> np_ge (np_truediv (intersection_area a b) (bbox_area a)) t"
    by (simp add: dominated_def)
  then show ?thesis by (auto simp: np_truediv_def split: if_splits)
qed

lemma suppress_example:
  "suppress_inside_bboxes [(0, 0, 100, 100), (10, 10, 50, 50), (200, 200, 10, 10)] 0.7
     = [(0, 0, 100, 100), (200, 200, 10, 10)]"
  by (simp add: suppress_inside_bboxes_def suppress_keep_def compare_pair_def
        intersection_area_def np_truediv_def upt_rec Let_def)

theorem suppress_postcondition_witness:
  "(200, 200, 10, 10) \<in> set (suppress_inside_bboxes [(0, 0, 100, 100), (10, 10, 50, 50), (200, 200, 10, 10)] 0.7)
   \<and> (0, 0, 100, 100) \<in> set (suppress_inside_bboxes [(0, 0, 100, 100), (10, 10, 50, 50), (200, 200, 10, 10)] 0.7)
   \<and> bbox_area (200, 200, 10, 10) < bbox_area (0, 0, 100, 100)
   \<and> \<not> np_ge (np_truediv (intersection_area (200, 200, 10, 10) (0, 0, 100, 100)) (bbox_area (200, 200, 10, 10))) 0.7
   \<and> intersection_area (200, 200, 10, 10) (0, 0, 100, 100) / bbox_area (200, 200, 10, 10) < 0.7"
proof -
  have a: "(200, 200, 10, 10) \<in> set (suppress_inside_bboxes [(0, 0, 100, 100), (10, 10, 50, 50), (200, 200, 10, 10)] 0.7)"
    and b: "(0, 0, 100, 100) \<in> set (suppress_inside_bboxes [(0, 0, 100, 100), (10, 10, 50, 50), (200, 200, 10, 10)] 0.7)"
    by (simp_all add: suppress_example)
  have c: "bbox_area (200, 200, 10, 10) < bbox_area (0, 0, 100, 100)" by simp
  from suppress_postcondition [OF a b c] a b c show ?thesis by simp
qed

section \<open>Containment suppression: the pair rule\<close>

text \<open>A cleared flag always has a cause: the pass clears the flag of a box only when it
  finds a box that dominates it.\<close>

lemma compare_pair_length: "length (compare_pair bboxes t i j keep) = length keep"
  using compare_pair_le [of bboxes t i j keep] by (simp add: le_keep_def)

lemma compare_pair_cleared:
  assumes "length keep = length bboxes" and "i < length bboxes" and "j < length bboxes"
      and "cleared_ok bboxes t keep"
  shows "cleared_ok bboxes t (compare_pair bboxes t i j keep)"
  using assms
  by (auto simp: compare_pair_dominated cleared_ok_def nth_list_update)

lemma inner_length: "length (fold (compare_pair bboxes t i) js keep) = length keep"
  using inner_le [of bboxes t i js keep] by (simp add: le_keep_def)

lemma inner_cleared:
  "length keep = length bboxes \<Longrightarrow> i < length bboxes \<Longrightarrow> \<forall>j \<in> set js. j < length bboxes \<Longrightarrow>
   cleared_ok bboxes t keep \<Longrightarrow> cleared_ok bboxes t (fold (compare_pair bboxes t i) js keep)"
proof (induction js arbitrary: keep)
  case Nil
  then show ?case by simp
next
  case (Cons j js)
  have "cleared_ok bboxes t (compare_pair bboxes t i j keep)"
    using Cons.prems by (intro compare_pair_cleared) auto
  with Cons.IH [of "compare_pair bboxes t i j keep"] Cons.prems show ?case
    by (simp add: compare_pair_length)
qed

lemma outer_cleared:
  "length keep = length bboxes \<Longrightarrow> \<forall>i \<in> set is. i < length bboxes \<Longrightarrow>
   \<forall>j \<in> set js. j < length bboxes \<Longrightarrow> cleared_ok bboxes t keep \<Longrightarrow>
     cleared_ok bboxes t (fold (\<lambda>i keep. fold (compare_pair bboxes t i) js keep) is keep)"
proof (induction "is" arbitrary: keep)
  case Nil
  then show ?case by simp
next
  case (Cons i "is")
  have "cleared_ok bboxes t (fold (compare_pair bboxes t i) js keep)"
    using Cons.prems by (intro inner_cleared) auto
  with Cons.IH [of "fold (compare_pair bboxes t i) js keep"] Cons.prems show ?case
    by (simp add: inner_length)
qed

lemma suppress_keep_cleared: "cleared_ok bboxes t (suppress_keep bboxes t)"
  unfolding suppress_keep_def Let_def
  by (rule outer_cleared) (simp_all add: cleared_ok_def)

lemma suppress_two_boxes:
  "suppress_inside_bboxes [a, b] t =
     (if bbox_area a < bbox_area b
         \<and> np_ge (np_truediv (intersection_area a b) (bbox_area a)) t then [b]
      else if bbox_area b < bbox_area a
         \<and> np_ge (np_truediv (intersection_area a b) (bbox_area b)) t then [a]
      else [a, b])"
  by (simp add: suppress_inside_bboxes_def suppress_keep_def compare_pair_def Let_def upt_rec
        intersection_area_commute [of b a])

text \<open>
  Claim C1. For a pair of distinct indices whose flags are both still set, the loop
  body clears the flag of the box with the strictly smaller area exactly when the
  intersection divided by that smaller area is at least the threshold, and changes
  nothing else; with equal areas it changes nothing. For a positive area the numpy
  comparison is the comparison of the real quotient. The intersection is 0 as soon as
  the boxes fail to overlap on one of the two axes. The list that
  \<^verbatim>\<open>suppress_inside_bboxes\<close> returns is the input masked by the flags that result from
  applying this body to every ordered pair of indices, row by row, starting from all
  flags set. Of two boxes it returns the larger one alone exactly when the
  intersection divided by the smaller area reaches the threshold, and both otherwise,
  so both when the areas are equal. In general a box is missing from the output
  whenever a box of the output is larger and holds that share of it, and a box is
  missing only if some larger box of the input holds that share of it.
\<close>

theorem suppress_pair_rule:
  "(i < length bboxes \<and> j < length bboxes \<and> i \<noteq> j \<and> length keep = length bboxes
      \<and> keep ! i \<and> keep ! j \<longrightarrow>
        (bbox_area (bboxes ! i) < bbox_area (bboxes ! j) \<longrightarrow>
           compare_pair bboxes t i j keep =
             (if np_ge (np_truediv (intersection_area (bboxes ! i) (bboxes ! j)) (bbox_area (bboxes ! i))) t
              then keep[i := False] else keep))
      \<and> (bbox_area (bboxes ! j) < bbox_area (bboxes ! i) \<longrightarrow>
           compare_pair bboxes t i j keep =
             (if np_ge (np_truediv (intersection_area (bboxes ! i) (bboxes ! j)) (bbox_area (bboxes ! j))) t
              then keep[j := False] else keep))
      \<and> (bbox_area (bboxes ! i) = bbox_area (bboxes ! j) \<longrightarrow> compare_pair bboxes t i j keep = keep))
   \<and> (\<forall>inter area. 0 < area \<longrightarrow> np_ge (np_truediv inter area) t = (t \<le> inter / area))
   \<and> (\<forall>x1 y1 w1 h1 x2 y2 w2 h2.
        {x1 <..< x1 + w1} \<inter> {x2 <..< x2 + w2} = {} \<or> {y1 <..< y1 + h1} \<inter> {y2 <..< y2 + h2} = {} \<longrightarrow>
        intersection_area (x1, y1, w1, h1) (x2, y2, w2, h2) = 0)
   \<and> suppress_inside_bboxes bboxes t =
        mask_select bboxes
          (fold (\<lambda>(i, j). compare_pair bboxes t i j)
             (List.product [0..<length bboxes] [0..<length bboxes])
             (replicate (length bboxes) True))
   \<and> (\<forall>a b. suppress_inside_bboxes [a, b] t =
          (if bbox_area a < bbox_area b
              \<and> np_ge (np_truediv (intersection_area a b) (bbox_area a)) t then [b]
           else if bbox_area b < bbox_area a
              \<and> np_ge (np_truediv (intersection_area a b) (bbox_area b)) t then [a]
           else [a, b]))
   \<and> (\<forall>a b. a \<in> set bboxes \<and> b \<in> set (suppress_inside_bboxes bboxes t)
          \<and> bbox_area a < bbox_area b
          \<and> np_ge (np_truediv (intersection_area a b) (bbox_area a)) t
          \<longrightarrow> a \<notin> set (suppress_inside_bboxes bboxes t))
   \<and> (\<forall>a. a \<in> set bboxes \<and> a \<notin> set (suppress_inside_bboxes bboxes t) \<longrightarrow>
          (\<exists>b \<in> set bboxes. bbox_area a < bbox_area b
             \<and> np_ge (np_truediv (intersection_area a b) (bbox_area a)) t))"
proof -
  have body: "i < length bboxes \<and> j < length bboxes \<and> i \<noteq> j \<and> length keep = length bboxes
      \<and> keep ! i \<and> keep ! j \<longrightarrow>
        (bbox_area (bboxes ! i) < bbox_area (bboxes ! j) \<longrightarrow>
           compare_pair bboxes t i j keep =
             (if np_ge (np_truediv (intersection_area (bboxes ! i) (bboxes ! j)) (bbox_area (bboxes ! i))) t
              then keep[i := False] else keep))
      \<and> (bbox_area (bboxes ! j) < bbox_area (bboxes ! i) \<longrightarrow>
           compare_pair bboxes t i j keep =
             (if np_ge (np_truediv (intersection_area (bboxes ! i) (bboxes ! j)) (bbox_area (bboxes ! j))) t
              then keep[j := False] else keep))
      \<and> (bbox_area (bboxes ! i) = bbox_area (bboxes ! j) \<longrightarrow> compare_pair bboxes t i j keep = keep)"
    by (simp add: compare_pair_def Let_def)
  have quot: "\<forall>inter area. 0 < area \<longrightarrow> np_ge (np_truediv inter area) t = (t \<le> inter / area)"
    by (simp add: np_truediv_def)
  have zero: "\<forall>x1 y1 w1 h1 x2 y2 w2 h2.
        {x1 <..< x1 + w1} \<inter> {x2 <..< x2 + w2} = {} \<or> {y1 <..< y1 + h1} \<inter> {y2 <..< y2 + h2} = {} \<longrightarrow>
        intersection_area (x1, y1, w1, h1) (x2, y2, w2, h2) = (0::real)"
    using no_overlap_zero by blast
  have pass: "suppress_inside_bboxes bboxes t =
        mask_select bboxes
          (fold (\<lambda>(i, j). compare_pair bboxes t i j)
             (List.product [0..<length bboxes] [0..<length bboxes])
             (replicate (length bboxes) True))"
    by (simp add: suppress_inside_bboxes_def suppress_keep_def Let_def fold_product)
  have two: "\<forall>a b. suppress_inside_bboxes [a, b] t =
          (if bbox_area a < bbox_area b
              \<and> np_ge (np_truediv (intersection_area a b) (bbox_area a)) t then [b]
           else if bbox_area b < bbox_area a
              \<and> np_ge (np_truediv (intersection_area a b) (bbox_area b)) t then [a]
           else [a, b])"
    using suppress_two_boxes by blast
  have gone: "a \<notin> set (suppress_inside_bboxes bboxes t)"
    if b: "b \<in> set (suppress_inside_bboxes bboxes t)" and ar: "bbox_area a < bbox_area b"
      and ge: "np_ge (np_truediv (intersection_area a b) (bbox_area a)) t" for a b
  proof
    assume a: "a \<in> set (suppress_inside_bboxes bboxes t)"
    from a obtain i where i: "i < length bboxes" "bboxes ! i = a" "suppress_keep bboxes t ! i"
      using in_mask_selectD [OF suppress_keep_length, of a bboxes t]
      by (auto simp: suppress_inside_bboxes_def)
    from b obtain j where j: "j < length bboxes" "bboxes ! j = b" "suppress_keep bboxes t ! j"
      using in_mask_selectD [OF suppress_keep_length, of b bboxes t]
      by (auto simp: suppress_inside_bboxes_def)
    from ar i j have "i \<noteq> j" by auto
    with suppress_keep_ok [OF i(1) j(1), of t] i j have "\<not> dominated a b t"
      by (simp add: pair_ok_def)
    with ar ge show False by (simp add: dominated_def)
  qed
  have why: "\<exists>b \<in> set bboxes. bbox_area a < bbox_area b
             \<and> np_ge (np_truediv (intersection_area a b) (bbox_area a)) t"
    if a: "a \<in> set bboxes" and na: "a \<notin> set (suppress_inside_bboxes bboxes t)" for a
  proof -
    from a obtain i where i: "i < length bboxes" "bboxes ! i = a"
      by (auto simp: in_set_conv_nth)
    from na i in_mask_selectI [OF suppress_keep_length i(1), of t]
    have "\<not> suppress_keep bboxes t ! i"
      by (auto simp: suppress_inside_bboxes_def)
    with suppress_keep_cleared [of bboxes t] i
    obtain j where "j < length bboxes" "dominated a (bboxes ! j) t"
      by (auto simp: cleared_ok_def suppress_keep_length)
    then show ?thesis
      by (auto simp: dominated_def intro!: bexI [of _ "bboxes ! j"])
  qed
  from body quot zero pass two gone why show ?thesis by blast
qed

theorem suppress_pair_rule_witness:
  "(0::nat) < length ([(0, 0, 100, 100), (70, 0, 40, 50)] :: bbox list)
   \<and> (1::nat) < length ([(0, 0, 100, 100), (70, 0, 40, 50)] :: bbox list)
   \<and> (0::nat) \<noteq> 1
   \<and> length [True, True] = length ([(0, 0, 100, 100), (70, 0, 40, 50)] :: bbox list)
   \<and> [True, True] ! 0 \<and> [True, True] ! 1
   \<and> bbox_area (70, 0, 40, 50) < bbox_area (0, 0, 100, 100)
   \<and> intersection_area (0, 0, 100, 100) (70, 0, 40, 50) = 1500
   \<and> compare_pair [(0, 0, 100, 100), (70, 0, 40, 50)] 0.7 0 1 [True, True] = [True, False]
   \<and> suppress_inside_bboxes [(0, 0, 100, 100), (70, 0, 40, 50)] 0.7 = [(0, 0, 100, 100)]
   \<and> suppress_inside_bboxes [(0, 0, 100, 100), (80, 0, 40, 50)] 0.7
        = [(0, 0, 100, 100), (80, 0, 40, 50)]
   \<and> suppress_inside_bboxes [(0, 0, 10, 10), (5, 0, 10, 10)] 0.7 = [(0, 0, 10, 10), (5, 0, 10, 10)]
   \<and> (70, 0, 40, 50) \<in> set ([(0, 0, 100, 100), (70, 0, 40, 50)] :: bbox list)
   \<and> (70, 0, 40, 50) \<notin> set (suppress_inside_bboxes [(0, 0, 100, 100), (70, 0, 40, 50)] 0.7)"
proof -
  note T = suppress_pair_rule
             [where bboxes = "[(0, 0, 100, 100), (70, 0, 40, 50)]" and t = "0.7"
                and i = 0 and j = 1 and keep = "[True, True]"]
  have i1: "intersection_area (0, 0, 100, 100) (70, 0, 40, 50) = 1500"
    and i2: "intersection_area (0, 0, 100, 100) (80, 0, 40, 50) = 1000"
    and i3: "intersection_area (0, 0, 10, 10) (5, 0, 10, 10) = 50"
    by (simp_all add: intersection_area_def)
  from T have two: "\<And>a b. suppress_inside_bboxes [a, b] 0.7 =
          (if bbox_area a < bbox_area b
              \<and> np_ge (np_truediv (intersection_area a b) (bbox_area a)) 0.7 then [b]
           else if bbox_area b < bbox_area a
              \<and> np_ge (np_truediv (intersection_area a b) (bbox_area b)) 0.7 then [a]
           else [a, b])"
    by blast
  from T have c: "compare_pair [(0, 0, 100, 100), (70, 0, 40, 50)] 0.7 0 1 [True, True]
                    = [True, False]"
    by (simp add: i1 np_truediv_def)
  from c i1 show ?thesis
    by (simp add: two i2 i3 np_truediv_def)
qed

section \<open>Both stages together\<close>

lemma mask_select_subset: "set (mask_select xs m) \<subseteq> set xs"
  using mask_select_subseq [of xs m] by (auto dest: list_emb_set)

lemma suppress_subset: "set (suppress_inside_bboxes bboxes t) \<subseteq> set bboxes"
  by (simp add: suppress_inside_bboxes_def mask_select_subset)

lemma stage_a_positive:
  assumes "0 \<le> low" and "(x, y, w, h) \<in> set (filter_by_constrain raw (low, high) bbox_ratio)"
      and "\<forall>(x, y, w, h) \<in> set raw. 0 \<le> w \<and> 0 \<le> h"
  shows "0 < w \<and> 0 < h"
proof -
  from assms(2) have m: "(x, y, w, h) \<in> set raw"
    and r: "np_greater (np_truediv h w) low" "np_less (np_truediv h w) high"
    by (auto simp: filter_by_constrain_filter)
  from m assms(3) have nn: "0 \<le> w" "0 \<le> h" by auto
  from r have w0: "w \<noteq> 0" and lt: "low < h / w"
    by (auto simp: np_truediv_def split: if_splits)
  from w0 nn have "0 < w" by simp
  moreover from lt assms(1) have "0 < h / w" by simp
  ultimately show ?thesis by (simp add: zero_less_divide_iff)
qed

lemma both_stages_example:
  "suppress_inside_bboxes
     (filter_by_constrain [(0, 0, 10, 10), (0, 0, 100, 200), (10, 10, 20, 50), (300, 0, 10, 30)]
        default_constrain bbox_ratio) default_threshold
   = [(0, 0, 100, 200), (300, 0, 10, 30)]"
  by (simp add: suppress_inside_bboxes_def suppress_keep_def compare_pair_def
        default_constrain_def default_threshold_def filter_by_constrain_filter
        intersection_area_def np_truediv_def upt_rec Let_def)

text \<open>
  Claim C10. The output of the aspect-ratio filter, the output of the suppression pass
  and the output of the two in sequence are each a subsequence of the input list: the
  survivors keep their relative order.
\<close>

theorem filter_order_preserved:
  "subseq (filter_by_constrain bboxes constrain metric) bboxes
   \<and> subseq (suppress_inside_bboxes bboxes t) bboxes
   \<and> subseq (suppress_inside_bboxes (filter_by_constrain bboxes constrain bbox_ratio) t) bboxes"
proof -
  have a: "subseq (filter_by_constrain bboxes constrain metric) bboxes" for metric
    by (simp add: filter_by_constrain_def Let_def mask_select_subseq)
  have b: "subseq (suppress_inside_bboxes bs t) bs" for bs
    by (simp add: suppress_inside_bboxes_def mask_select_subseq)
  from b [of "filter_by_constrain bboxes constrain bbox_ratio"] a [of bbox_ratio]
  have "subseq (suppress_inside_bboxes (filter_by_constrain bboxes constrain bbox_ratio) t) bboxes"
    by (rule subseq_order.trans)
  with a b show ?thesis by blast
qed

theorem filter_order_preserved_witness:
  "subseq ([(0, 0, 100, 200), (300, 0, 10, 30)] :: bbox list)
          [(0, 0, 10, 10), (0, 0, 100, 200), (10, 10, 20, 50), (300, 0, 10, 30)]"
  using filter_order_preserved
          [of "[(0, 0, 10, 10), (0, 0, 100, 200), (10, 10, 20, 50), (300, 0, 10, 30)]"
              default_constrain bbox_ratio default_threshold]
  by (simp only: both_stages_example)

text \<open>
  Claim C4. If every raw box has a nonnegative width and a nonnegative height, every
  box that survives the aspect-ratio filter and then the suppression pass has a
  positive width and a positive height. This holds for any lower bound that is not
  negative, so for the default bounds that \<^verbatim>\<open>get_image_and_bboxes\<close> uses.
\<close>

theorem accepted_regions_positive:
  assumes "\<forall>(x, y, w, h) \<in> set raw. 0 \<le> w \<and> 0 \<le> h"
  shows "(0 \<le> low \<longrightarrow>
          (\<forall>(x, y, w, h) \<in> set (suppress_inside_bboxes (filter_by_constrain raw (low, high) bbox_ratio) t).
             0 < w \<and> 0 < h))
       \<and> (open_image image_path = Some img \<and> mask_generator img = Some raw \<longrightarrow>
            (\<exists>bbox. get_image_and_bboxes open_image image_path mask_generator = Some (img, bbox)
                  \<and> (\<forall>(x, y, w, h) \<in> set bbox. 0 < w \<and> 0 < h)))"
proof -
  have g: "\<forall>(x, y, w, h) \<in> set (suppress_inside_bboxes (filter_by_constrain raw (low, high) bbox_ratio) t).
             0 < w \<and> 0 < h" if "0 \<le> low" for low high t
    using suppress_subset [of "filter_by_constrain raw (low, high) bbox_ratio" t]
      stage_a_positive [OF that _ assms, of _ _ _ _ high]
    by blast
  have "\<exists>bbox. get_image_and_bboxes open_image image_path mask_generator = Some (img, bbox)
                  \<and> (\<forall>(x, y, w, h) \<in> set bbox. 0 < w \<and> 0 < h)"
    if "open_image image_path = Some img" "mask_generator img = Some raw"
    using that g [of "1.5" 5 default_threshold]
    by (simp add: get_image_and_bboxes_def default_constrain_def Let_def)
  with g show ?thesis by blast
qed

theorem accepted_regions_positive_witness:
  "list_all (\<lambda>(x, y, w, h). 0 \<le> w \<and> 0 \<le> h)
     ([(0, 0, 10, 10), (0, 0, 100, 200), (10, 10, 20, 50), (300, 0, 10, 30), (5, 5, 0, 0)] :: bbox list)
   \<and> get_image_and_bboxes (\<lambda>p. Some (0::nat)) ''a.png''
        (\<lambda>i. Some [(0, 0, 10, 10), (0, 0, 100, 200), (10, 10, 20, 50), (300, 0, 10, 30), (5, 5, 0, 0)])
      = Some (0, [(0, 0, 100, 200), (300, 0, 10, 30)])
   \<and> list_all (\<lambda>(x, y, w, h). 0 < w \<and> 0 < h)
        (suppress_inside_bboxes
           (filter_by_constrain
              [(0, 0, 10, 10), (0, 0, 100, 200), (10, 10, 20, 50), (300, 0, 10, 30), (5, 5, 0, 0)]
              default_constrain bbox_ratio) default_threshold)"
proof -
  have h: "\<forall>(x, y, w, h) \<in> set ([(0, 0, 10, 10), (0, 0, 100, 200), (10, 10, 20, 50),
             (300, 0, 10, 30), (5, 5, 0, 0)] :: bbox list). 0 \<le> w \<and> 0 \<le> h"
    by simp
  have e: "filter_by_constrain
              [(0, 0, 10, 10), (0, 0, 100, 200), (10, 10, 20, 50), (300, 0, 10, 30), (5, 5, 0, 0)]
              default_constrain bbox_ratio
           = filter_by_constrain
              [(0, 0, 10, 10), (0, 0, 100, 200), (10, 10, 20, 50), (300, 0, 10, 30)]
              default_constrain bbox_ratio"
    by (simp add: filter_by_constrain_filter default_constrain_def np_truediv_def)
  have g: "get_image_and_bboxes (\<lambda>p. Some (0::nat)) ''a.png''
        (\<lambda>i. Some [(0, 0, 10, 10), (0, 0, 100, 200), (10, 10, 20, 50), (300, 0, 10, 30), (5, 5, 0, 0)])
      = Some (0, [(0, 0, 100, 200), (300, 0, 10, 30)])"
    by (simp add: get_image_and_bboxes_def Let_def e both_stages_example)
  note accepted_regions_positive
         [OF h, where low = "1.5" and high = 5 and t = default_threshold
            and open_image = "\<lambda>p. Some (0::nat)" and image_path = "''a.png''" and img = 0
            and mask_generator = "\<lambda>i. Some [(0, 0, 10, 10), (0, 0, 100, 200), (10, 10, 20, 50),
                                    (300, 0, 10, 30), (5, 5, 0, 0)]"]
  with h g show ?thesis
    by (simp add: list_all_iff default_constrain_def)
qed

section \<open>The per-image pipeline\<close>

text \<open>
  Called with no box at all, \<^verbatim>\<open>extract_and_save_bboxes\<close> would still write the CSV
  file, holding the header only. It is \<^verbatim>\<open>image_pipeline\<close> that does not call it.
\<close>

lemma persist_empty_writes_header:
  "extract_and_save_bboxes img [] bbox_dir csv_dir image_path files =
     files @ [(path_join csv_dir (splitext_root (basename image_path) @ ''.csv''),
               CsvFile [''X'', ''Y'', ''W'', ''H'', ''FileName''] [])]"
  by (simp add: extract_and_save_bboxes_def Let_def)

text \<open>
  Claim C8. When the filtering of an image leaves no accepted region (the list of boxes
  is empty, or opening the image or the segmentation failed), the pipeline step writes
  nothing, neither a crop nor the CSV sidecar, and returns \<^verbatim>\<open>False\<close>; when a region
  is left it returns \<^verbatim>\<open>True\<close>.
\<close>

theorem zero_regions_nothing_written:
  "((\<forall>img bbox. get_image_and_bboxes open_image image_path mask_generator = Some (img, bbox)
                 \<longrightarrow> bbox = [])
      \<longrightarrow> image_pipeline open_image image_path mask_generator bboxes_dir csv_dir files
            = (False, files))
   \<and> ((\<exists>img bbox. get_image_and_bboxes open_image image_path mask_generator = Some (img, bbox)
                 \<and> bbox \<noteq> [])
      \<longrightarrow> fst (image_pipeline open_image image_path mask_generator bboxes_dir csv_dir files))"
  by (auto simp: image_pipeline_def split: option.splits)

theorem zero_regions_nothing_written_witness:
  "get_image_and_bboxes (\<lambda>p. Some (0::nat)) ''a.png'' (\<lambda>i. Some [(0, 0, 10, 10)]) = Some (0, [])
   \<and> image_pipeline (\<lambda>p. Some (0::nat)) ''a.png'' (\<lambda>i. Some [(0, 0, 10, 10)]) ''crops'' ''csv'' []
       = (False, [])"
proof -
  have g: "get_image_and_bboxes (\<lambda>p. Some (0::nat)) ''a.png'' (\<lambda>i. Some [(0, 0, 10, 10)]) = Some (0, [])"
    by (simp add: get_image_and_bboxes_def filter_by_constrain_filter default_constrain_def
          np_truediv_def suppress_inside_bboxes_def suppress_keep_def Let_def)
  from zero_regions_nothing_written
         [where open_image = "\<lambda>p. Some (0::nat)" and image_path = "''a.png''"
            and mask_generator = "\<lambda>i. Some [(0, 0, 10, 10)]" and bboxes_dir = "''crops''"
            and csv_dir = "''csv''" and files = "[]"] g
  show ?thesis by simp
qed

section \<open>The deduplicating download\<close>

lemma str_nat_0: "str_nat 0 = ''0''"
  by code_simp

lemma download_image_fresh:
  assumes "requests_get w img_url = Some (Response 200 body)"
      and "compute_md5 w body \<notin> dedup_set s"
      and "write_ok w (path_join output_dir (uuid4_hex w (drawn s) @ ''_'' @ compute_md5 w body @ ''.png''))"
  shows "download_image w img_url output_dir s =
           (Some (path_join output_dir (uuid4_hex w (drawn s) @ ''_'' @ compute_md5 w body @ ''.png'')),
            s\<lparr>dedup_set := insert (compute_md5 w body) (dedup_set s),
              drawn := Suc (drawn s),
              written := written s @
                [(path_join output_dir (uuid4_hex w (drawn s) @ ''_'' @ compute_md5 w body @ ''.png''), body)]\<rparr>)"
  using assms by (simp add: download_image_def Let_def)

lemma download_image_seen:
  assumes "compute_md5 w body \<in> dedup_set s"
      and "download_image w img_url output_dir s = (r, s')"
  shows "compute_md5 w body \<in> dedup_set s' \<and> copies body (written s') = copies body (written s)"
  using assms
  by (auto simp: download_image_def Let_def copies_def split: option.splits if_splits)

lemma download_image_duplicate:
  assumes "requests_get w img_url = Some (Response 200 body)"
      and "compute_md5 w body \<in> dedup_set s"
  shows "download_image w img_url output_dir s = (None, s)"
  using assms by (simp add: download_image_def Let_def)

lemma download_all_seen:
  assumes "compute_md5 w body \<in> dedup_set s"
      and "download_all w output_dir urls s = (rs, s')"
  shows "compute_md5 w body \<in> dedup_set s' \<and> copies body (written s') = copies body (written s)"
  using assms
proof (induction urls arbitrary: s rs s')
  case Nil
  then show ?case by simp
next
  case (Cons u urls)
  obtain r s1 where d: "download_image w u output_dir s = (r, s1)"
    by (cases "download_image w u output_dir s")
  obtain rs1 s2 where a: "download_all w output_dir urls s1 = (rs1, s2)"
    by (cases "download_all w output_dir urls s1")
  from Cons.prems(2) d a have s': "s' = s2" by simp
  from download_image_seen [OF Cons.prems(1) d]
  have 1: "compute_md5 w body \<in> dedup_set s1" "copies body (written s1) = copies body (written s)"
    by simp_all
  from Cons.IH [OF 1(1) a] 1(2) s' show ?case by simp
qed

text \<open>
  Claim C6. Two fetches that both return status 200 with the same bytes, the first one
  made when the fingerprint of these bytes is not yet in the set and with a write that
  succeeds: the first returns the path of the file it wrote, the second returns no
  result and leaves the store as it is. That also holds when any other fetches of the
  same session lie between the two, and the session writes exactly one file with
  these bytes.
\<close>

theorem dedup_exactly_once:
  assumes "requests_get w url1 = Some (Response 200 body)"
      and "requests_get w url2 = Some (Response 200 body)"
      and "compute_md5 w body \<notin> dedup_set s"
      and "write_ok w (path_join output_dir (uuid4_hex w (drawn s) @ ''_'' @ compute_md5 w body @ ''.png''))"
  shows "\<exists>p s1. download_image w url1 output_dir s = (Some p, s1)
           \<and> written s1 = written s @ [(p, body)]
           \<and> download_image w url2 output_dir s1 = (None, s1)
           \<and> (\<forall>between results s2.
                 download_all w output_dir between s1 = (results, s2) \<longrightarrow>
                   download_image w url2 output_dir s2 = (None, s2)
                   \<and> copies body (written s2) = copies body (written s) + 1)"
proof -
  let ?p = "path_join output_dir (uuid4_hex w (drawn s) @ ''_'' @ compute_md5 w body @ ''.png'')"
  let ?s1 = "s\<lparr>dedup_set := insert (compute_md5 w body) (dedup_set s), drawn := Suc (drawn s),
              written := written s @ [(?p, body)]\<rparr>"
  have d1: "download_image w url1 output_dir s = (Some ?p, ?s1)"
    using assms(1,3,4) by (rule download_image_fresh)
  have seen: "compute_md5 w body \<in> dedup_set ?s1" by simp
  have w1: "written ?s1 = written s @ [(?p, body)]" by simp
  have c1: "copies body (written ?s1) = copies body (written s) + 1"
    by (simp add: copies_def)
  have d2: "download_image w url2 output_dir ?s1 = (None, ?s1)"
    using assms(2) seen by (rule download_image_duplicate)
  have later: "download_image w url2 output_dir s2 = (None, s2)
                 \<and> copies body (written s2) = copies body (written s) + 1"
    if "download_all w output_dir between ?s1 = (results, s2)" for between results s2
    using download_all_seen [OF seen that] download_image_duplicate [OF assms(2)] c1
    by simp
  from d1 w1 d2 later show ?thesis by blast
qed

theorem dedup_exactly_once_witness:
  "download_image same_bytes_world ''a'' ''out'' \<lparr>dedup_set = {}, written = [], drawn = 0\<rparr>
     = (Some ''out/0_hPNG.png'',
        \<lparr>dedup_set = {''hPNG''}, written = [(''out/0_hPNG.png'', ''PNG'')], drawn = 1\<rparr>)
   \<and> download_image same_bytes_world ''b'' ''out''
        \<lparr>dedup_set = {''hPNG''}, written = [(''out/0_hPNG.png'', ''PNG'')], drawn = 1\<rparr>
     = (None, \<lparr>dedup_set = {''hPNG''}, written = [(''out/0_hPNG.png'', ''PNG'')], drawn = 1\<rparr>)"
proof -
  have 1: "requests_get same_bytes_world ''a'' = Some (Response 200 ''PNG'')"
    and 2: "requests_get same_bytes_world ''b'' = Some (Response 200 ''PNG'')"
    and 3: "compute_md5 same_bytes_world ''PNG'' \<notin> dedup_set \<lparr>dedup_set = {}, written = [], drawn = 0\<rparr>"
    and 4: "write_ok same_bytes_world (path_join ''out''
              (uuid4_hex same_bytes_world (drawn \<lparr>dedup_set = {}, written = [], drawn = 0\<rparr>)
                 @ ''_'' @ compute_md5 same_bytes_world ''PNG'' @ ''.png''))"
    by (simp_all add: same_bytes_world_def compute_md5_def)
  have n: "str_nat 0 = ''0''" by code_simp
  have e1: "download_image same_bytes_world ''a'' ''out'' \<lparr>dedup_set = {}, written = [], drawn = 0\<rparr>
     = (Some ''out/0_hPNG.png'',
        \<lparr>dedup_set = {''hPNG''}, written = [(''out/0_hPNG.png'', ''PNG'')], drawn = 1\<rparr>)"
    by (simp add: download_image_def same_bytes_world_def compute_md5_def path_join_def n Let_def)
  have e2: "download_image same_bytes_world ''b'' ''out''
        \<lparr>dedup_set = {''hPNG''}, written = [(''out/0_hPNG.png'', ''PNG'')], drawn = 1\<rparr>
     = (None, \<lparr>dedup_set = {''hPNG''}, written = [(''out/0_hPNG.png'', ''PNG'')], drawn = 1\<rparr>)"
    by (simp add: download_image_def same_bytes_world_def compute_md5_def Let_def)
  from dedup_exactly_once [OF 1 2 3 4] e1 e2
  show ?thesis
    by simp
qed

text \<open>
  A fetch that fails before the fingerprint is computed (the request raises, or the
  status is not 200) returns no result and leaves the store unchanged.
\<close>

lemma fetch_fault_atomic:
  assumes "requests_get w img_url = None
           \<or> (\<exists>code body. requests_get w img_url = Some (Response code body) \<and> code \<noteq> 200)"
  shows "download_image w img_url output_dir s = (None, s)"
  using assms by (auto simp: download_image_def)

text \<open>
  A fetch that fails while writing the file returns no result as well, but the
  fingerprint was added before the write: it stays in the set, and no file holds the
  bytes.
\<close>

lemma write_fault_not_atomic:
  assumes "requests_get w img_url = Some (Response 200 body)"
      and "compute_md5 w body \<notin> dedup_set s"
      and "\<not> write_ok w (path_join output_dir (uuid4_hex w (drawn s) @ ''_'' @ compute_md5 w body @ ''.png''))"
  shows "fst (download_image w img_url output_dir s) = None
       \<and> dedup_set (snd (download_image w img_url output_dir s)) = insert (compute_md5 w body) (dedup_set s)
       \<and> dedup_set (snd (download_image w img_url output_dir s)) \<noteq> dedup_set s
       \<and> written (snd (download_image w img_url output_dir s)) = written s"
  using assms by (auto simp: download_image_def Let_def)

text \<open>
  Claim C7 says that every failing fetch leaves the set of seen fingerprints unchanged.
  The code does not do that when the fault is in the write: with a disk that refuses
  the write, the fetch of \<open>''a''\<close> returns no result and leaves the fingerprint
  \<open>''hPNG''\<close> in the set that was empty; a later fetch of the same bytes, the disk
  being writable again, is then turned away as a duplicate although no file was ever
  written.
\<close>

theorem write_fault_inserts_fingerprint:
  "download_image read_only_world ''a'' ''out'' \<lparr>dedup_set = {}, written = [], drawn = 0\<rparr>
     = (None, \<lparr>dedup_set = {''hPNG''}, written = [], drawn = 1\<rparr>)
   \<and> download_image same_bytes_world ''a'' ''out'' \<lparr>dedup_set = {''hPNG''}, written = [], drawn = 1\<rparr>
     = (None, \<lparr>dedup_set = {''hPNG''}, written = [], drawn = 1\<rparr>)"
  by (simp add: download_image_def read_only_world_def same_bytes_world_def compute_md5_def
        path_join_def str_nat_0 Let_def)

section \<open>The batch generator\<close>

lemma chunks_Nil [simp]: "chunks k [] = []"
  by (simp add: chunks.simps)

lemma chunks_short: "0 < k \<Longrightarrow> xs \<noteq> [] \<Longrightarrow> length xs \<le> k \<Longrightarrow> chunks k xs = [xs]"
  by (subst chunks.simps) simp

lemma chunks_full: "0 < k \<Longrightarrow> length xs = k \<Longrightarrow> chunks k (xs @ ys) = xs # chunks k ys"
  by (subst chunks.simps) auto

lemma length_expected_paths [simp]: "length (expected_paths w output_dir n urls) = length urls"
  by (induction urls arbitrary: n) simp_all

lemma concat_chunks: "concat (chunks k xs) = xs"
proof (induction k xs rule: chunks.induct)
  case (1 k xs)
  then show ?case
    by (subst chunks.simps) auto
qed

lemma length_chunks: "0 < k \<Longrightarrow> length (chunks k xs) = (length xs + k - 1) div k"
proof (induction k xs rule: chunks.induct)
  case (1 k xs)
  show ?case
  proof (cases "xs = []")
    case True
    with "1.prems" show ?thesis by simp
  next
    case False
    with "1.prems" have ch: "chunks k xs = take k xs # chunks k (drop k xs)"
      by (subst chunks.simps) simp
    from False "1.prems" "1.IH" have IH: "length (chunks k (drop k xs)) = (length xs - k + k - 1) div k"
      by simp
    show ?thesis
    proof (cases "length xs \<le> k")
      case True
      with False "1.prems" have "(length xs + k - 1) div k = 1"
        by (cases xs) (simp_all add: div_nat_eqI)
      with True ch show ?thesis by simp
    next
      case gt: False
      then have "length xs + k - 1 = (length xs - 1) + 1 * k" by simp
      then have "(length xs + k - 1) div k = (length xs - 1) div k + 1"
        using "1.prems" by (simp only: div_mult_self1)
      with gt ch IH show ?thesis by simp
    qed
  qed
qed

lemma chunks_nth_full:
  "0 < k \<Longrightarrow> Suc i < length (chunks k xs) \<Longrightarrow> length (chunks k xs ! i) = k"
proof (induction k xs arbitrary: i rule: chunks.induct)
  case (1 k xs)
  show ?case
  proof (cases "xs = []")
    case True
    with "1.prems" show ?thesis by simp
  next
    case False
    with "1.prems" have ch: "chunks k xs = take k xs # chunks k (drop k xs)"
      by (subst chunks.simps) simp
    from "1.prems" ch have ne: "chunks k (drop k xs) \<noteq> []" by auto
    then have "drop k xs \<noteq> []" by auto
    then have big: "k < length xs" by simp
    show ?thesis
    proof (cases i)
      case 0
      with ch big show ?thesis by simp
    next
      case (Suc j)
      with "1.prems" ch have "Suc j < length (chunks k (drop k xs))" by simp
      with "1.IH" [of j] False "1.prems" have "length (chunks k (drop k xs) ! j) = k" by simp
      with ch Suc show ?thesis by simp
    qed
  qed
qed

lemma chunks_last:
  "0 < k \<Longrightarrow> xs \<noteq> [] \<Longrightarrow>
     length (last (chunks k xs)) = (if length xs mod k = 0 then k else length xs mod k)"
proof (induction k xs rule: chunks.induct)
  case (1 k xs)
  from "1.prems" have ch: "chunks k xs = take k xs # chunks k (drop k xs)"
    by (subst chunks.simps) simp
  show ?case
  proof (cases "length xs \<le> k")
    case True
    with ch "1.prems" show ?thesis by (cases "length xs = k") auto
  next
    case False
    then have ne: "drop k xs \<noteq> []" by simp
    then have "chunks k (drop k xs) \<noteq> []"
      using "1.prems" by (subst chunks.simps) simp
    with ch have "last (chunks k xs) = last (chunks k (drop k xs))" by simp
    moreover from "1.IH" "1.prems" ne
    have "length (last (chunks k (drop k xs))) =
            (if length (drop k xs) mod k = 0 then k else length (drop k xs) mod k)"
      by simp
    moreover from False have "length (drop k xs) mod k = length xs mod k"
      by (simp add: le_mod_geq)
    ultimately show ?thesis by simp
  qed
qed

lemma refresh_Go_pending:
  "refresh images pending idx = Go images' pending' \<Longrightarrow> set pending' \<subseteq> set pending"
  by (auto simp: refresh_def split: if_splits list.splits page.splits)

lemma refresh_Crash:
  "refresh images pending idx = Crash \<Longrightarrow> DriverError \<in> set pending"
  by (auto simp: refresh_def split: if_splits list.splits page.splits)

lemma flush_None:
  "0 < k \<Longrightarrow> length batch < k \<Longrightarrow>
     flush None batch s out =
       \<lparr>yielded = out @ chunks k batch, ending = Returned, driver_started = True,
        driver_quit = True, final = s\<rparr>"
  by (cases "batch = []") (simp_all add: flush_def chunks_short)

lemma harvest_loop_None:
  "pulls = None \<Longrightarrow> batch_size = int k \<Longrightarrow> 0 < k \<Longrightarrow> length batch < k \<Longrightarrow>
   DriverError \<notin> set pending \<Longrightarrow>
     yielded (harvest_loop w output_dir batch_size pulls images pending idx batch s out) =
         out @ chunks k (batch @ harvested w output_dir (crawl images pending idx) s)
     \<and> ending (harvest_loop w output_dir batch_size pulls images pending idx batch s out) = Returned
     \<and> driver_quit (harvest_loop w output_dir batch_size pulls images pending idx batch s out)"
proof (induction w output_dir batch_size pulls images pending idx batch s out
        rule: harvest_loop.induct)
  case (1 w output_dir batch_size pulls images pending idx batch s out)
  note step = harvest_loop.simps [of w output_dir batch_size pulls images pending idx batch s out]
  note cstep = crawl.simps [of images pending idx]
  show ?case
  proof (cases "refresh images pending idx")
    case Break
    have "harvest_loop w output_dir batch_size pulls images pending idx batch s out
            = flush pulls batch s out"
      and "crawl images pending idx = []"
      using Break by (simp_all add: step cstep)
    with "1.prems" flush_None [of k batch s out] show ?thesis
      by simp
  next
    case Crash
    with "1.prems" refresh_Crash show ?thesis by blast
  next
    case (Go im pd)
    with "1.prems" refresh_Go_pending have pd: "DriverError \<notin> set pd" by blast
    have C: "crawl images pending idx = im ! idx # crawl im pd (Suc idx)"
      using Go by (simp add: cstep)
    show ?thesis
    proof (cases "im ! idx")
      case Stale
      have "harvest_loop w output_dir batch_size pulls images pending idx batch s out
              = harvest_loop w output_dir batch_size pulls im pd (Suc idx) batch s out"
        using Go Stale by (simp add: step)
      with "1.IH"(1) [OF Go Stale] "1.prems" pd C Stale show ?thesis
        by simp
    next
      case (Img src)
      show ?thesis
      proof (cases src)
        case None
        have "harvest_loop w output_dir batch_size pulls images pending idx batch s out
                = harvest_loop w output_dir batch_size pulls im pd (Suc idx) batch s out"
          using Go Img None by (simp add: step)
        with "1.IH"(2) [OF Go Img None] "1.prems" pd C Img None show ?thesis
          by simp
      next
        case (Some img_url)
        show ?thesis
        proof (cases "img_url = [] \<or> startswith img_url ''data:''")
          case True
          have "harvest_loop w output_dir batch_size pulls images pending idx batch s out
                  = harvest_loop w output_dir batch_size pulls im pd (Suc idx) batch s out"
            using Go Img Some True by (simp add: step)
          with "1.IH"(3) [OF Go Img Some True] "1.prems" pd C Img Some True show ?thesis
            by simp
        next
          case False
          obtain fp s' where d: "download_image w img_url output_dir s = (fp, s')"
            by (cases "download_image w img_url output_dir s")
          show ?thesis
          proof (cases fp)
            case None
            from "1.prems" have ne: "int (length batch) \<noteq> batch_size" by simp
            have L: "harvest_loop w output_dir batch_size pulls images pending idx batch s out
                    = harvest_loop w output_dir batch_size pulls im pd (Suc idx) batch s' out"
              using Go Img Some False d None ne by (simp add: step)
            have H: "harvested w output_dir (crawl images pending idx) s
                    = harvested w output_dir (crawl im pd (Suc idx)) s'"
              using C Img Some False d None by simp
            have "batch = (case fp of None \<Rightarrow> batch | Some p \<Rightarrow> batch @ [p])"
              using None by simp
            from "1.IH"(5) [OF Go Img Some False d [symmetric] this] ne "1.prems" pd
            show ?thesis
              unfolding L H by simp
          next
            case fpSome: (Some p)
            have b': "batch @ [p] = (case fp of None \<Rightarrow> batch | Some p \<Rightarrow> batch @ [p])"
              using fpSome by simp
            have H: "harvested w output_dir (crawl images pending idx) s
                    = p # harvested w output_dir (crawl im pd (Suc idx)) s'"
              using C Img Some False d fpSome by simp
            show ?thesis
            proof (cases "int (length (batch @ [p])) = batch_size")
              case True
              from "1.prems"(1) have np: "pulls \<noteq> Some (length (out @ [batch @ [p]]))" by simp
              have L: "harvest_loop w output_dir batch_size pulls images pending idx batch s out
                    = harvest_loop w output_dir batch_size pulls im pd (Suc idx) [] s'
                        (out @ [batch @ [p]])"
                using Go Img Some False d fpSome True np by (simp add: step)
              from True "1.prems" have len: "length (batch @ [p]) = k" by simp
              have ch: "chunks k (batch @ p # harvested w output_dir (crawl im pd (Suc idx)) s')
                      = (batch @ [p]) # chunks k (harvested w output_dir (crawl im pd (Suc idx)) s')"
                using chunks_full [OF "1.prems"(3) len] by simp
              from "1.IH"(4) [OF Go Img Some False d [symmetric] b' True refl np] "1.prems" pd
              show ?thesis
                unfolding L H ch by simp
            next
              case ne: False
              have L: "harvest_loop w output_dir batch_size pulls images pending idx batch s out
                    = harvest_loop w output_dir batch_size pulls im pd (Suc idx) (batch @ [p]) s' out"
                using Go Img Some False d fpSome ne by (simp add: step)
              from ne "1.prems" have len: "length (batch @ [p]) < k" by auto
              from "1.IH"(5) [OF Go Img Some False d [symmetric] b' ne] "1.prems" pd len
              show ?thesis
                unfolding L H by simp
            qed
          qed
        qed
      qed
    qed
  qed
qed

lemma harvested_all_succeed:
  assumes "\<forall>u \<in> set urls. u \<noteq> [] \<and> \<not> startswith u ''data:''"
      and "\<forall>u \<in> set urls. \<exists>body. requests_get w u = Some (Response 200 body)"
      and "distinct (map (fingerprint w) urls)"
      and "\<forall>u \<in> set urls. fingerprint w u \<notin> dedup_set s"
      and "\<forall>p. write_ok w p"
  shows "harvested w output_dir (map (\<lambda>u. Img (Some u)) urls) s
           = expected_paths w output_dir (drawn s) urls"
  using assms
proof (induction urls arbitrary: s)
  case Nil
  show ?case by simp
next
  case (Cons u urls)
  from Cons.prems(2) obtain body where body: "requests_get w u = Some (Response 200 body)"
    by auto
  then have fp: "fingerprint w u = compute_md5 w body"
    by (simp add: fingerprint_def)
  let ?p = "path_join output_dir (uuid4_hex w (drawn s) @ ''_'' @ compute_md5 w body @ ''.png'')"
  let ?s = "s\<lparr>dedup_set := insert (compute_md5 w body) (dedup_set s), drawn := Suc (drawn s),
              written := written s @ [(?p, body)]\<rparr>"
  have d: "download_image w u output_dir s = (Some ?p, ?s)"
    using body Cons.prems(4,5) fp by (intro download_image_fresh) auto
  from Cons.prems(3) fp have "compute_md5 w body \<notin> fingerprint w ` set urls"
    by simp
  then have other: "\<forall>u' \<in> set urls. fingerprint w u' \<noteq> compute_md5 w body"
    by force
  have "harvested w output_dir (map (\<lambda>u. Img (Some u)) urls) ?s
          = expected_paths w output_dir (drawn ?s) urls"
    using Cons.prems other by (intro Cons.IH) auto
  with d Cons.prems(1) fp show ?case by simp
qed

text \<open>On a page that no scroll extends, the loop visits the elements of the page.\<close>

lemma crawl_single_page: "crawl images [] idx = drop idx images"
proof (induction "length images - idx" arbitrary: idx)
  case 0
  then show ?case by (simp add: crawl.simps [of images "[]" idx] refresh_def)
next
  case (Suc n)
  then have lt: "idx < length images" by simp
  from Suc(1) [of "Suc idx"] Suc(2) have "crawl images [] (Suc idx) = drop (Suc idx) images"
    by simp
  with lt show ?case
    by (simp add: crawl.simps [of images "[]" idx] refresh_def Cons_nth_drop_Suc)
qed

lemma candidates_single_page:
  "find_elements w prompt = [Elements images] \<Longrightarrow> candidates w prompt = images"
  by (simp add: candidates_def crawl_single_page)

text \<open>The number of pieces, as a ceiling.\<close>

lemma ceil_div: "0 < k \<Longrightarrow> int ((n + k - 1) div k) = \<lceil>real n / real k\<rceil>"
proof -
  assume k: "0 < k"
  define q where "q = (n + k - 1) div k"
  have m: "(n + k - 1) mod k < k" using k by simp
  have e: "q * k + (n + k - 1) mod k = n + k - 1"
    unfolding q_def by simp
  from e m k have lo: "n \<le> q * k" by linarith
  from e k have hi: "q * k < n + k" by linarith
  from lo have 1: "real n \<le> real q * real k"
    by (simp only: of_nat_mult [symmetric] of_nat_le_iff)
  from hi have 2: "real q * real k < real n + real k"
    by (simp only: of_nat_mult [symmetric] of_nat_add [symmetric] of_nat_less_iff)
  from 1 k have a: "real n / real k \<le> real q" by (simp add: divide_le_eq)
  from 2 k have b: "real q - 1 < real n / real k" by (simp add: less_divide_eq algebra_simps)
  from a b have "\<lceil>real n / real k\<rceil> = int q"
    by (intro ceiling_unique) auto
  then show ?thesis by (simp add: q_def)
qed

text \<open>
  Iterated to the end (\<open>pulls = None\<close>) over a source whose driver never raises, and
  with a positive batch size, the generator hands out the downloaded paths cut into
  consecutive batches, returns, and has called \<^verbatim>\<open>driver.quit()\<close>.
\<close>

lemma generator_None:
  assumes "0 < k" and "DriverError \<notin> set (find_elements w prompt)"
  shows "yielded (yandex_images_batch_generator w prompt output_dir (int k) None) =
           chunks k (harvested w output_dir (candidates w prompt)
                      \<lparr>dedup_set = {}, written = [], drawn = 0\<rparr>)
       \<and> ending (yandex_images_batch_generator w prompt output_dir (int k) None) = Returned
       \<and> driver_quit (yandex_images_batch_generator w prompt output_dir (int k) None)"
proof -
  let ?s = "\<lparr>dedup_set = {}, written = [], drawn = 0\<rparr>"
  have loop: "yielded (harvest_loop w output_dir (int k) None images pending 0 [] ?s []) =
           [] @ chunks k ([] @ harvested w output_dir (crawl images pending 0) ?s)
       \<and> ending (harvest_loop w output_dir (int k) None images pending 0 [] ?s []) = Returned
       \<and> driver_quit (harvest_loop w output_dir (int k) None images pending 0 [] ?s [])"
    if "DriverError \<notin> set pending" for images pending
    by (rule harvest_loop_None) (use assms(1) that in simp_all)
  show ?thesis
  proof (cases "find_elements w prompt")
    case Nil
    have "crawl [] [] 0 = []"
      by (simp add: crawl.simps refresh_def)
    with loop [of "[]" "[]"] Nil show ?thesis
      by (simp add: yandex_images_batch_generator_def candidates_def)
  next
    case (Cons pg pending)
    with assms(2) obtain images where pg: "pg = Elements images"
      and pd: "DriverError \<notin> set pending"
      by (cases pg) auto
    from loop [OF pd, of images] Cons pg show ?thesis
      by (simp add: yandex_images_batch_generator_def candidates_def)
  qed
qed

text \<open>
  Claim C5. Let the source show \<open>N\<close> candidates, all with a fetchable URL, all
  answering with status 200, with pairwise different fingerprints, every write
  succeeding and the driver never raising, and let the batch size \<open>k\<close> be positive.
  Iterated to the end, the generator yields \<open>\<lceil>N / k\<rceil>\<close> batches; every batch but the
  last has exactly \<open>k\<close> paths; the last has \<open>N mod k\<close> paths if that is not zero and
  \<open>k\<close> otherwise; the batches put together are the \<open>N\<close> saved paths in the order in
  which the candidates were discovered.
\<close>

theorem batch_sizing:
  assumes "0 < k"
      and "DriverError \<notin> set (find_elements w prompt)"
      and "candidates w prompt = map (\<lambda>u. Img (Some u)) urls"
      and "\<forall>u \<in> set urls. u \<noteq> [] \<and> \<not> startswith u ''data:''"
      and "\<forall>u \<in> set urls. \<exists>body. requests_get w u = Some (Response 200 body)"
      and "distinct (map (fingerprint w) urls)"
      and "\<forall>p. write_ok w p"
  shows "int (length (yielded (yandex_images_batch_generator w prompt output_dir (int k) None)))
           = \<lceil>real (length urls) / real k\<rceil>
       \<and> length (yielded (yandex_images_batch_generator w prompt output_dir (int k) None))
           = (length urls + k - 1) div k
       \<and> (\<forall>i. Suc i < length (yielded (yandex_images_batch_generator w prompt output_dir (int k) None))
              \<longrightarrow> length (yielded (yandex_images_batch_generator w prompt output_dir (int k) None) ! i) = k)
       \<and> (urls \<noteq> [] \<longrightarrow>
            length (last (yielded (yandex_images_batch_generator w prompt output_dir (int k) None)))
              = (if length urls mod k = 0 then k else length urls mod k))
       \<and> concat (yielded (yandex_images_batch_generator w prompt output_dir (int k) None))
           = expected_paths w output_dir 0 urls
       \<and> length (concat (yielded (yandex_images_batch_generator w prompt output_dir (int k) None)))
           = length urls
       \<and> ending (yandex_images_batch_generator w prompt output_dir (int k) None) = Returned"
proof -
  let ?r = "yandex_images_batch_generator w prompt output_dir (int k) None"
  have h: "harvested w output_dir (candidates w prompt) \<lparr>dedup_set = {}, written = [], drawn = 0\<rparr>
             = expected_paths w output_dir 0 urls"
    using harvested_all_succeed [OF assms(4,5,6) _ assms(7), of "\<lparr>dedup_set = {}, written = [], drawn = 0\<rparr>" output_dir]
    by (simp add: assms(3))
  from generator_None [OF assms(1,2), of output_dir] h
  have y: "yielded ?r = chunks k (expected_paths w output_dir 0 urls)"
    and e: "ending ?r = Returned"
    by simp_all
  have 1: "length (yielded ?r) = (length urls + k - 1) div k"
    unfolding y using length_chunks [OF assms(1), of "expected_paths w output_dir 0 urls"] by simp
  have 2: "\<forall>i. Suc i < length (yielded ?r) \<longrightarrow> length (yielded ?r ! i) = k"
    unfolding y using chunks_nth_full [OF assms(1)] by blast
  have 3: "urls \<noteq> [] \<longrightarrow>
            length (last (yielded ?r)) = (if length urls mod k = 0 then k else length urls mod k)"
  proof
    assume "urls \<noteq> []"
    then have "expected_paths w output_dir 0 urls \<noteq> []"
      by (cases urls) simp_all
    from chunks_last [OF assms(1) this] show
      "length (last (yielded ?r)) = (if length urls mod k = 0 then k else length urls mod k)"
      unfolding y by simp
  qed
  have 4: "concat (yielded ?r) = expected_paths w output_dir 0 urls"
    unfolding y by (rule concat_chunks)
  then have 5: "length (concat (yielded ?r)) = length urls"
    by simp
  from 1 ceil_div [OF assms(1), of "length urls"]
  have 0: "int (length (yielded ?r)) = \<lceil>real (length urls) / real k\<rceil>"
    by simp
  from 0 1 2 3 4 5 e show ?thesis by blast
qed

lemma demo_candidates:
  "candidates demo_world ''beer'' = map (\<lambda>u. Img (Some u)) [''u1'', ''u2'', ''u3'', ''u4'', ''u5'']"
  by code_simp

lemma demo_yield: "yielded (yandex_images_batch_generator demo_world ''beer'' ''out'' 2 None)
   = [[''out/0_u1.png'', ''out/1_u2.png''], [''out/2_u3.png'', ''out/3_u4.png''], [''out/4_u5.png'']]"
  by code_simp

theorem batch_sizing_witness:
  "(0::nat) < 2
   \<and> DriverError \<notin> set (find_elements demo_world ''beer'')
   \<and> candidates demo_world ''beer'' = map (\<lambda>u. Img (Some u)) [''u1'', ''u2'', ''u3'', ''u4'', ''u5'']
   \<and> list_all (\<lambda>u. u \<noteq> [] \<and> \<not> startswith u ''data:'') [''u1'', ''u2'', ''u3'', ''u4'', ''u5'']
   \<and> list_all (\<lambda>u. \<exists>body. requests_get demo_world u = Some (Response 200 body))
        [''u1'', ''u2'', ''u3'', ''u4'', ''u5'']
   \<and> distinct (map (fingerprint demo_world) [''u1'', ''u2'', ''u3'', ''u4'', ''u5''])
   \<and> (\<forall>p. write_ok demo_world p)
   \<and> yielded (yandex_images_batch_generator demo_world ''beer'' ''out'' 2 None)
        = [[''out/0_u1.png'', ''out/1_u2.png''], [''out/2_u3.png'', ''out/3_u4.png''],
           [''out/4_u5.png'']]
   \<and> length (yielded (yandex_images_batch_generator demo_world ''beer'' ''out'' 2 None)) = 3
   \<and> length (last (yielded (yandex_images_batch_generator demo_world ''beer'' ''out'' 2 None))) = 1
   \<and> length (concat (yielded (yandex_images_batch_generator demo_world ''beer'' ''out'' 2 None))) = 5"
proof -
  have k: "(0::nat) < 2" by simp
  have nf: "DriverError \<notin> set (find_elements demo_world ''beer'')"
    by (simp add: demo_world_def)
  have v: "\<forall>u \<in> set [''u1'', ''u2'', ''u3'', ''u4'', ''u5'']. u \<noteq> [] \<and> \<not> startswith u ''data:''"
    by (simp add: startswith_def)
  have ok: "\<forall>u \<in> set [''u1'', ''u2'', ''u3'', ''u4'', ''u5''].
              \<exists>body. requests_get demo_world u = Some (Response 200 body)"
    by (simp add: demo_world_def)
  have d: "distinct (map (fingerprint demo_world) [''u1'', ''u2'', ''u3'', ''u4'', ''u5''])"
    by (simp add: fingerprint_def demo_world_def compute_md5_def)
  have wr: "\<forall>p. write_ok demo_world p"
    by (simp add: demo_world_def)
  note batch_sizing [OF k nf demo_candidates v ok d wr, of "''out''"]
  with k nf demo_candidates v ok d wr demo_yield show ?thesis
    by (simp add: list_all_iff)
qed

text \<open>
  \<^verbatim>\<open>driver.quit()\<close> is reached by the runs that return, and by no other: not by a
  run left suspended at a \<^verbatim>\<open>yield\<close>, not by a run that a driver exception ends.
\<close>

lemma harvest_loop_quit_iff:
  "driver_quit (harvest_loop w output_dir batch_size pulls images pending idx batch s out)
     = (ending (harvest_loop w output_dir batch_size pulls images pending idx batch s out) = Returned)"
proof (induction w output_dir batch_size pulls images pending idx batch s out
        rule: harvest_loop.induct)
  case (1 w output_dir batch_size pulls images pending idx batch s out)
  show ?case
    apply (subst (1 2) harvest_loop.simps)
    using 1
    apply (auto simp: flush_def Let_def split: refreshed.splits element.splits option.splits prod.splits)
    done
qed

lemma generator_quit_iff:
  "driver_quit (yandex_images_batch_generator w prompt output_dir batch_size pulls)
     = (ending (yandex_images_batch_generator w prompt output_dir batch_size pulls) = Returned)"
  by (simp add: yandex_images_batch_generator_def harvest_loop_quit_iff Let_def
        split: list.splits page.splits)

text \<open>
  Claim C9 says that the browser session is released on every exit path of the
  generator. The code calls \<^verbatim>\<open>driver.quit()\<close> only as its last statement, so only
  a run that is iterated to the end reaches it (see \<open>generator_None\<close> and
  \<open>generator_quit_iff\<close>). A caller that takes one batch of two and stops, as the
  notebook's own download loop does once it has enough images, leaves the generator
  at its \<^verbatim>\<open>yield\<close> with the browser started and never quit; a driver call that raises
  during a scroll leaves the function by the exception, again before
  \<^verbatim>\<open>driver.quit()\<close>.
\<close>

theorem early_stop_leaves_driver:
  "driver_started (yandex_images_batch_generator demo_world ''beer'' ''out'' 2 (Some 1))
   \<and> \<not> driver_quit (yandex_images_batch_generator demo_world ''beer'' ''out'' 2 (Some 1))
   \<and> ending (yandex_images_batch_generator demo_world ''beer'' ''out'' 2 (Some 1)) = Suspended
   \<and> yielded (yandex_images_batch_generator demo_world ''beer'' ''out'' 2 (Some 1))
        = [[''out/0_u1.png'', ''out/1_u2.png'']]
   \<and> driver_started (yandex_images_batch_generator crashing_world ''beer'' ''out'' 2 None)
   \<and> \<not> driver_quit (yandex_images_batch_generator crashing_world ''beer'' ''out'' 2 None)
   \<and> ending (yandex_images_batch_generator crashing_world ''beer'' ''out'' 2 None) = Raised
   \<and> yielded (yandex_images_batch_generator crashing_world ''beer'' ''out'' 2 None)
        = [[''out/0_u1.png'', ''out/1_u2.png'']]"
  by code_simp

end
